theory Spec2Isabelle
  imports Complex_Main "HOL-Library.Word"
begin

unbundle bit_operations_syntax

section \<open>Machine types and outcomes\<close>

text \<open>
  The fixed-width integers of \<^verbatim>\<open>FxTypes.hpp\<close> (\<^verbatim>\<open>uint8\<close>, \<^verbatim>\<open>uint16\<close>, \<^verbatim>\<open>uint32\<close>) are
  machine words; their arithmetic wraps around as in C++.
\<close>

type_synonym uint8 = "8 word"
type_synonym uint16 = "16 word"
type_synonym uint32 = "32 word"
type_synonym FxHash = "32 word"

text \<open>
  The library's functions return \<^verbatim>\<open>void\<close> or a plain value. Three ways of not returning
  normally are made explicit:
  \<^item> \<open>AssertionFailed\<close>: an \<^verbatim>\<open>assert(...)\<close> of the source does not hold, and the program is
    aborted with a diagnostic (the checked condition);
  \<^item> \<open>OutOfBounds\<close>: a load or store outside the \<^verbatim>\<open>Size\<close> bytes allocated for \<^verbatim>\<open>Data\<close>, which no
    check of the source catches (undefined behaviour);
  \<^item> \<open>UndefinedConversion\<close>: a floating-point value converted to \<^verbatim>\<open>uint32\<close> whose truncation
    is not representable (undefined behaviour).
\<close>

datatype fault = AssertionFailed | OutOfBounds | UndefinedConversion

definition then_do :: "fault + 'a \<Rightarrow> ('a \<Rightarrow> fault + 'b) \<Rightarrow> fault + 'b" where
  "then_do m f = (case m of Inl e \<Rightarrow> Inl e | Inr x \<Rightarrow> f x)"

lemma then_do_cong [fundef_cong]:
  "m = m' \<Longrightarrow> (\<And>x. m' = Inr x \<Longrightarrow> f x = f' x) \<Longrightarrow> then_do m f = then_do m' f'"
  by (simp add: then_do_def split: sum.splits)

lemma then_do_Inl [simp]: "then_do (Inl e) f = Inl e"
  by (simp add: then_do_def)

lemma then_do_Inr [simp]: "then_do (Inr x) f = f x"
  by (simp add: then_do_def)

lemma then_do_eq_Inr:
  "then_do m f = Inr y \<longleftrightarrow> (\<exists>x. m = Inr x \<and> f x = Inr y)"
  by (simp add: then_do_def split: sum.splits)

section \<open>Section buffers (\<^verbatim>\<open>FxSerializerBaseSection\<close>)\<close>

text \<open>
  \<open>Data\<close> is the content of the block allocated by \<^verbatim>\<open>Create\<close>; the block has \<open>Size\<close> bytes.
  \<open>Index\<close> is the read/write cursor.
\<close>

record FxSerializerBaseSection =
  Data :: "uint8 list"
  Index :: uint32
  Size :: uint32

text \<open>
  \<^verbatim>\<open>Create\<close> allocates \<^verbatim>\<open>Size\<close> bytes with \<^verbatim>\<open>malloc\<close>, which does not initialise them: the
  initial content \<open>mem\<close> is a parameter (cut or zero-filled to the block's length).
  The allocation is taken to succeed.
\<close>

definition Create :: "uint32 \<Rightarrow> uint8 list \<Rightarrow> FxSerializerBaseSection" where
  "Create buffer_size mem =
     \<lparr>Data = take (unat buffer_size) (mem @ replicate (unat buffer_size) 0),
      Index = 0, Size = buffer_size\<rparr>"

text \<open>\<^verbatim>\<open>Data[Index++] = value\<close> and \<^verbatim>\<open>Data[Index++]\<close>, with the access checked against the block.\<close>

definition in_block :: "'a FxSerializerBaseSection_scheme \<Rightarrow> bool" where
  "in_block s \<longleftrightarrow> Index s < Size s \<and> unat (Index s) < length (Data s)"

definition store_inc :: "uint8 \<Rightarrow> 'a FxSerializerBaseSection_scheme
    \<Rightarrow> fault + 'a FxSerializerBaseSection_scheme" where
  "store_inc value s =
     (if in_block s
      then Inr (s\<lparr>Data := (Data s)[unat (Index s) := value], Index := Index s + 1\<rparr>)
      else Inl OutOfBounds)"

definition load_inc :: "'a FxSerializerBaseSection_scheme
    \<Rightarrow> fault + (uint8 \<times> 'a FxSerializerBaseSection_scheme)" where
  "load_inc s =
     (if in_block s
      then Inr (Data s ! unat (Index s), s\<lparr>Index := Index s + 1\<rparr>)
      else Inl OutOfBounds)"

subsection \<open>Write functions\<close>

definition Write8 :: "uint8 \<Rightarrow> 'a FxSerializerBaseSection_scheme
    \<Rightarrow> fault + 'a FxSerializerBaseSection_scheme" where
  "Write8 value s =
     (if Index s < Size s then store_inc value s else Inl AssertionFailed)"

definition Write16 :: "uint16 \<Rightarrow> 'a FxSerializerBaseSection_scheme
    \<Rightarrow> fault + 'a FxSerializerBaseSection_scheme" where
  "Write16 value16 s =
     (if Index s + 2 \<le> Size s
      then then_do (store_inc (ucast (drop_bit 8 value16)) s) (store_inc (ucast value16))
      else Inl AssertionFailed)"

definition Write32 :: "uint32 \<Rightarrow> 'a FxSerializerBaseSection_scheme
    \<Rightarrow> fault + 'a FxSerializerBaseSection_scheme" where
  "Write32 value32 s =
     then_do (Write16 (ucast (drop_bit 16 value32)) s) (Write16 (ucast value32))"

text \<open>
  \<^verbatim>\<open>WriteBuffer(size, data)\<close>: \<^verbatim>\<open>memcpy\<close> reads \<open>size\<close> bytes from \<open>data\<close> and stores them at
  \<^verbatim>\<open>Data + Index\<close>; both ranges must lie inside their blocks.
\<close>

definition WriteBuffer :: "uint32 \<Rightarrow> uint8 list \<Rightarrow> 'a FxSerializerBaseSection_scheme
    \<Rightarrow> fault + 'a FxSerializerBaseSection_scheme" where
  "WriteBuffer sz data s =
     (if Index s + sz \<le> Size s
      then (if unat sz \<le> length data
               \<and> unat (Index s) + unat sz \<le> unat (Size s)
               \<and> unat (Index s) + unat sz \<le> length (Data s)
            then Inr (s\<lparr>Data := take (unat (Index s)) (Data s) @ take (unat sz) data
                                  @ drop (unat (Index s) + unat sz) (Data s),
                        Index := Index s + sz\<rparr>)
            else Inl OutOfBounds)
      else Inl AssertionFailed)"

subsection \<open>Read functions\<close>

definition Read8 :: "'a FxSerializerBaseSection_scheme
    \<Rightarrow> fault + (uint8 \<times> 'a FxSerializerBaseSection_scheme)" where
  "Read8 s = (if Index s + 1 \<le> Size s then load_inc s else Inl AssertionFailed)"

definition Read16 :: "'a FxSerializerBaseSection_scheme
    \<Rightarrow> fault + (uint16 \<times> 'a FxSerializerBaseSection_scheme)" where
  "Read16 s =
     (if Index s + 2 \<le> Size s
      then then_do (load_inc s) (\<lambda>(b1, s1).
           then_do (load_inc s1) (\<lambda>(b0, s2).
             Inr (push_bit 8 (ucast b1) OR ucast b0, s2)))
      else Inl AssertionFailed)"

text \<open>
  \<^verbatim>\<open>Read32\<close> combines two calls of \<^verbatim>\<open>Read16\<close> in one expression; the left operand (the high
  half) is taken to be evaluated first, which is the order \<^verbatim>\<open>Write32\<close> stores the halves in.
\<close>

definition Read32 :: "'a FxSerializerBaseSection_scheme
    \<Rightarrow> fault + (uint32 \<times> 'a FxSerializerBaseSection_scheme)" where
  "Read32 s =
     then_do (Read16 s) (\<lambda>(hi, s1).
     then_do (Read16 s1) (\<lambda>(lo, s2).
       Inr (push_bit 16 (ucast hi) OR ucast lo, s2)))"

subsection \<open>Effect of the reads on the cursor\<close>

lemma load_inc_Inr:
  assumes "load_inc s = Inr (b, s')"
  shows "s' = s\<lparr>Index := Index s + 1\<rparr>" and "b = Data s ! unat (Index s)"
    and "Index s < Size s" and "unat (Index s) < length (Data s)"
  using assms by (auto simp: load_inc_def in_block_def split: if_splits)

lemma word_less_Suc_unat:
  fixes i n :: uint32
  assumes "i < n"
  shows "unat (i + 1) = Suc (unat i)"
proof -
  have "unat i < unat n" using assms by (simp add: word_less_nat_alt)
  moreover have "unat n < 2 ^ 32" using unsigned_less [of n] by simp
  ultimately have "unat i + 1 < 2 ^ 32" by simp
  then show ?thesis by (simp add: unat_word_ariths)
qed

lemma Read8_Inr:
  assumes "Read8 s = Inr (b, s')"
  shows "s' = s\<lparr>Index := Index s + 1\<rparr>" and "b = Data s ! unat (Index s)"
    and "Index s < Size s" and "unat (Index s') = Suc (unat (Index s))"
    and "unat (Index s) < length (Data s)"
proof -
  from assms have l: "load_inc s = Inr (b, s')"
    by (simp add: Read8_def split: if_splits)
  show "s' = s\<lparr>Index := Index s + 1\<rparr>" and "b = Data s ! unat (Index s)"
    and "Index s < Size s" and "unat (Index s) < length (Data s)"
    using load_inc_Inr [OF l] by simp_all
  then show "unat (Index s') = Suc (unat (Index s))"
    by (simp add: word_less_Suc_unat)
qed

lemma Read16_Inr:
  assumes "Read16 s = Inr (v, s')"
  shows "s' = s\<lparr>Index := Index s + 2\<rparr>"
    and "v = push_bit 8 (ucast (Data s ! unat (Index s))) OR ucast (Data s ! Suc (unat (Index s)))"
    and "Index s + 1 < Size s" and "unat (Index s') = unat (Index s) + 2"
    and "Suc (unat (Index s)) < length (Data s)"
proof -
  from assms obtain b1 s1 b0 where
    l1: "load_inc s = Inr (b1, s1)" and l0: "load_inc s1 = Inr (b0, s')"
    and v: "v = push_bit 8 (ucast b1) OR ucast b0"
    by (auto simp: Read16_def then_do_eq_Inr split: if_splits)
  note a = load_inc_Inr [OF l1] and b = load_inc_Inr [OF l0]
  have u1: "unat (Index s + 1) = Suc (unat (Index s))"
    using a(3) by (rule word_less_Suc_unat)
  show "s' = s\<lparr>Index := Index s + 2\<rparr>"
    using a(1) b(1) by simp
  show "v = push_bit 8 (ucast (Data s ! unat (Index s))) OR ucast (Data s ! Suc (unat (Index s)))"
    using v a(1,2) b(1,2) u1 by simp
  show lt: "Index s + 1 < Size s"
    using a(1) b(3) by simp
  have "unat (Index s + 1 + 1) = Suc (unat (Index s + 1))"
    using lt by (rule word_less_Suc_unat)
  then show "unat (Index s') = unat (Index s) + 2"
    using a(1) b(1) u1 by (simp add: add.assoc)
  show "Suc (unat (Index s)) < length (Data s)"
    using a(1) b(4) u1 by simp
qed

subsection \<open>Reading moves the cursor and nothing else\<close>

definition cursor_moved :: "'a FxSerializerBaseSection_scheme
    \<Rightarrow> 'a FxSerializerBaseSection_scheme \<Rightarrow> bool" where
  "cursor_moved s s' \<longleftrightarrow> s' = s\<lparr>Index := Index s'\<rparr>"

lemma cursor_moved_refl [simp]: "cursor_moved s s"
  by (simp add: cursor_moved_def)

lemma cursor_moved_update [simp]: "cursor_moved s (s\<lparr>Index := i\<rparr>)"
  by (simp add: cursor_moved_def)

lemma cursor_moved_trans:
  assumes "cursor_moved s s1" and "cursor_moved s1 s2"
  shows "cursor_moved s s2"
proof -
  have "s2 = s1\<lparr>Index := Index s2\<rparr>" using assms(2) by (simp add: cursor_moved_def)
  also have "s1 = s\<lparr>Index := Index s1\<rparr>" using assms(1) by (simp add: cursor_moved_def)
  finally show ?thesis by (simp add: cursor_moved_def)
qed

lemma cursor_moved_same:
  assumes "cursor_moved s s'"
  shows "Data s' = Data s" and "Size s' = Size s" and "s'\<lparr>Index := i\<rparr> = s\<lparr>Index := i\<rparr>"
proof -
  have e: "s' = s\<lparr>Index := Index s'\<rparr>" using assms by (simp add: cursor_moved_def)
  show "Data s' = Data s" by (subst e) simp
  show "Size s' = Size s" by (subst e) simp
  show "s'\<lparr>Index := i\<rparr> = s\<lparr>Index := i\<rparr>" by (subst e) simp
qed

lemma cursor_moved_back:
  "cursor_moved s s' \<Longrightarrow> s'\<lparr>Index := Index s\<rparr> = s"
  by (simp add: cursor_moved_same(3))

lemma Read8_moved: "Read8 s = Inr (b, s') \<Longrightarrow> cursor_moved s s'"
  using Read8_Inr(1) [of s b s'] by simp

lemma Read16_moved: "Read16 s = Inr (v, s') \<Longrightarrow> cursor_moved s s'"
  using Read16_Inr(1) [of s v s'] by simp

lemma Read32_moved:
  assumes "Read32 s = Inr (v, s')"
  shows "cursor_moved s s'"
proof -
  from assms obtain hi s1 lo where "Read16 s = Inr (hi, s1)" and "Read16 s1 = Inr (lo, s')"
    by (auto simp: Read32_def then_do_eq_Inr)
  then show ?thesis by (blast intro: cursor_moved_trans Read16_moved)
qed

section \<open>The type section (\<^verbatim>\<open>FxSerializerTypeSection\<close>)\<close>

record TypeEntry =
  Entry_Id :: uint16
  Entry_Offset :: uint32

record FxSerializerTypeSection = FxSerializerBaseSection +
  mRegisteredTypeIds :: "TypeEntry list"

datatype FxSerializedType =
  FxSerializedType (Type_Id: uint16) (Type_Size: uint16) (Members: "FxSerializedType list")

definition TypeIdentHeader :: uint8 where
  "TypeIdentHeader = 0xEF"

definition TypeIdentFooter :: uint8 where
  "TypeIdentFooter = 0xBE"

definition IsTypePreviouslyWritten :: "uint16 \<Rightarrow> 'a FxSerializerTypeSection_scheme \<Rightarrow> bool" where
  "IsTypePreviouslyWritten type_id ts \<longleftrightarrow> type_id \<in> Entry_Id ` set (mRegisteredTypeIds ts)"

subsection \<open>\<^verbatim>\<open>FindIndexFromTypeId\<close>\<close>

text \<open>
  The loop over the members of an entry that is passed over:
  \<^verbatim>\<open>for (int i = 0; i < number_of_members; i++) { Read16(); Read16(); }\<close>.
\<close>

fun skip_members :: "nat \<Rightarrow> 'a FxSerializerBaseSection_scheme
    \<Rightarrow> fault + 'a FxSerializerBaseSection_scheme" where
  "skip_members 0 s = Inr s"
| "skip_members (Suc n) s =
     then_do (Read16 s) (\<lambda>(sz, s1).
     then_do (Read16 s1) (\<lambda>(member_id, s2).
       skip_members n s2))"

lemma skip_members_Inr:
  "skip_members n s = Inr s' \<Longrightarrow>
     s' = s\<lparr>Index := Index s'\<rparr> \<and> unat (Index s) \<le> unat (Index s')"
proof (induction n arbitrary: s)
  case 0
  then show ?case by simp
next
  case (Suc n)
  from Suc.prems obtain a s1 b s2 where
    r1: "Read16 s = Inr (a, s1)" and r2: "Read16 s1 = Inr (b, s2)"
    and k: "skip_members n s2 = Inr s'"
    by (auto simp: then_do_eq_Inr)
  note a = Read16_Inr(1,4) [OF r1] and b = Read16_Inr(1,4) [OF r2]
  from Suc.IH [OF k] have c: "s' = s2\<lparr>Index := Index s'\<rparr>"
    and d: "unat (Index s2) \<le> unat (Index s')" by simp_all
  have "s' = s\<lparr>Index := Index s'\<rparr>"
    by (subst c, subst b(1), subst a(1)) simp
  moreover have "unat (Index s) \<le> unat (Index s')"
    using a(2) b(2) d by simp
  ultimately show ?case by simp
qed

text \<open>
  How the scan loop was left: by \<^verbatim>\<open>break\<close> on the searched id, by \<^verbatim>\<open>break\<close> after one of the two
  diagnostics printed on a marker mismatch, or because \<^verbatim>\<open>Index < Size\<close> no longer holds.
  The function itself returns \<^verbatim>\<open>entry_index\<close> only.
\<close>

datatype scan_exit = IdFound | HeaderSanityError | FooterSanityError | SectionExhausted

text \<open>
  One iteration of the \<^verbatim>\<open>while\<close> loop, from \<^verbatim>\<open>entry_index = Index\<close> on: the result is
  \<open>Some\<close> exit when the body leaves the loop by \<^verbatim>\<open>break\<close>, and \<open>None\<close> when it reaches its end
  (\<^verbatim>\<open>// Continue to next entry...\<close>).
\<close>

definition FindIndex_body :: "uint16 \<Rightarrow> 'a FxSerializerBaseSection_scheme
    \<Rightarrow> fault + (scan_exit option \<times> 'a FxSerializerBaseSection_scheme)" where
  "FindIndex_body id' s =
     then_do (Read8 s) (\<lambda>(sanity_header, s1).
       if sanity_header \<noteq> TypeIdentHeader then Inr (Some HeaderSanityError, s1)
       else
     then_do (Read16 s1) (\<lambda>(type_id, s2).
       if type_id = id' then Inr (Some IdFound, s2)
       else
     then_do (Read16 s2) (\<lambda>(sz, s3).
     then_do (Read8 s3) (\<lambda>(number_of_members, s4).
     then_do (skip_members (unat number_of_members) s4) (\<lambda>s5.
     then_do (Read8 s5) (\<lambda>(sanity_footer, s6).
       if sanity_footer \<noteq> TypeIdentFooter then Inr (Some FooterSanityError, s6)
       else Inr (None, s6)))))))"

lemma then_doE:
  assumes "then_do m f = Inr y"
  obtains x where "m = Inr x" and "f x = Inr y"
  using assms by (auto simp: then_do_eq_Inr)

lemma skip_members_moved: "skip_members n s = Inr s' \<Longrightarrow> cursor_moved s s'"
  using skip_members_Inr [of n s s'] by (simp add: cursor_moved_def)

lemma FindIndex_body_Inr:
  assumes "FindIndex_body id' s = Inr (brk, s')"
  shows "cursor_moved s s'" and "unat (Index s) < unat (Index s')" and "Index s < Size s"
proof -
  from assms obtain h s1 where r1: "Read8 s = Inr (h, s1)"
    and k1: "(if h \<noteq> TypeIdentHeader then Inr (Some HeaderSanityError, s1)
       else
     then_do (Read16 s1) (\<lambda>(type_id, s2).
       if type_id = id' then Inr (Some IdFound, s2)
       else
     then_do (Read16 s2) (\<lambda>(sz, s3).
     then_do (Read8 s3) (\<lambda>(number_of_members, s4).
     then_do (skip_members (unat number_of_members) s4) (\<lambda>s5.
     then_do (Read8 s5) (\<lambda>(sanity_footer, s6).
       if sanity_footer \<noteq> TypeIdentFooter then Inr (Some FooterSanityError, s6)
       else Inr (None, s6))))))) = Inr (brk, s')"
    unfolding FindIndex_body_def by (elim then_doE) (simp split: prod.splits)
  note a = Read8_Inr [OF r1] and m1 = Read8_moved [OF r1]
  show "Index s < Size s" by (rule a(3))
  have "cursor_moved s s' \<and> unat (Index s) < unat (Index s')"
  proof (cases "h \<noteq> TypeIdentHeader")
    case True
    with k1 a(4) m1 show ?thesis by auto
  next
    case False
    with k1 obtain tid s2 where r2: "Read16 s1 = Inr (tid, s2)"
      and k2: "(if tid = id' then Inr (Some IdFound, s2)
       else
     then_do (Read16 s2) (\<lambda>(sz, s3).
     then_do (Read8 s3) (\<lambda>(number_of_members, s4).
     then_do (skip_members (unat number_of_members) s4) (\<lambda>s5.
     then_do (Read8 s5) (\<lambda>(sanity_footer, s6).
       if sanity_footer \<noteq> TypeIdentFooter then Inr (Some FooterSanityError, s6)
       else Inr (None, s6)))))) = Inr (brk, s')"
      by (simp only: if_False) (elim then_doE, simp split: prod.splits)
    note b = Read16_Inr [OF r2] and m2 = cursor_moved_trans [OF m1 Read16_moved [OF r2]]
    have u2: "unat (Index s) < unat (Index s2)"
      using a(4) b(4) by simp
    show ?thesis
    proof (cases "tid = id'")
      case True
      with k2 m2 u2 show ?thesis by auto
    next
      case False
      with k2 obtain sz s3 n s4 s5 f s6 where r3: "Read16 s2 = Inr (sz, s3)"
        and r4: "Read8 s3 = Inr (n, s4)"
        and r5: "skip_members (unat n) s4 = Inr s5"
        and r6: "Read8 s5 = Inr (f, s6)"
        and k6: "brk = (if f \<noteq> TypeIdentFooter then Some FooterSanityError else None)"
        and s6: "s' = s6"
        by (simp only: if_False) (auto simp: then_do_eq_Inr split: if_splits)
      note c = Read16_Inr [OF r3] and d = Read8_Inr [OF r4]
        and e = skip_members_Inr [OF r5] and g = Read8_Inr [OF r6]
      have "cursor_moved s s6"
        using m2 Read16_moved [OF r3] Read8_moved [OF r4] skip_members_moved [OF r5]
          Read8_moved [OF r6] by (blast intro: cursor_moved_trans)
      moreover have "unat (Index s) < unat (Index s6)"
        using u2 c(4) d(4) e g(4) by simp
      ultimately show ?thesis using s6 by simp
    qed
  qed
  then show "cursor_moved s s'" and "unat (Index s) < unat (Index s')"
    by simp_all
qed

function FindIndex_loop :: "uint16 \<Rightarrow> uint32 \<Rightarrow> 'a FxSerializerBaseSection_scheme
    \<Rightarrow> fault + (scan_exit \<times> uint32 \<times> 'a FxSerializerBaseSection_scheme)" where
  "FindIndex_loop id' entry_index s =
     (if Index s < Size s then
        then_do (FindIndex_body id' s) (\<lambda>(brk, s').
          case brk of
            Some exit \<Rightarrow> Inr (exit, Index s, s')
          | None \<Rightarrow> FindIndex_loop id' (Index s) s')
      else Inr (SectionExhausted, entry_index, s))"
  by pat_completeness auto
termination
proof (relation "measure (\<lambda>(id', entry_index, s). unat (Size s) - unat (Index s))", goal_cases)
  case 1
  show ?case by simp
next
  case (2 id' entry_index s x brk s')
  then have b: "FindIndex_body id' s = Inr (brk, s')" by simp
  note a = FindIndex_body_Inr [OF b]
  have "Size s' = Size s" using a(1) by (rule cursor_moved_same)
  moreover have "unat (Index s) < unat (Size s)"
    using a(3) by (simp add: word_less_nat_alt)
  ultimately show ?case using a(2) by simp
qed

declare FindIndex_loop.simps [simp del]

text \<open>
  \<^verbatim>\<open>REVERT_INDEX_AFTER_SCOPE\<close> saves \<^verbatim>\<open>Index\<close> and restores it when the scope is left;
  \<open>FindIndexFromTypeId_scan\<close> is the function together with the exit its loop took, and
  \<open>FindIndexFromTypeId\<close> what the caller receives.
\<close>

definition FindIndexFromTypeId_scan :: "uint16 \<Rightarrow> 'a FxSerializerBaseSection_scheme
    \<Rightarrow> fault + (scan_exit \<times> uint32 \<times> 'a FxSerializerBaseSection_scheme)" where
  "FindIndexFromTypeId_scan id' s =
     (let old_index = Index s in
      then_do (FindIndex_loop id' 0 (s\<lparr>Index := 0\<rparr>)) (\<lambda>(exit, entry_index, s').
        Inr (exit, entry_index, s'\<lparr>Index := old_index\<rparr>)))"

definition FindIndexFromTypeId :: "uint16 \<Rightarrow> 'a FxSerializerBaseSection_scheme
    \<Rightarrow> fault + (uint32 \<times> 'a FxSerializerBaseSection_scheme)" where
  "FindIndexFromTypeId id' s =
     then_do (FindIndexFromTypeId_scan id' s) (\<lambda>(exit, entry_index, s'). Inr (entry_index, s'))"

subsection \<open>\<^verbatim>\<open>ReadType\<close>\<close>

text \<open>
  \<^verbatim>\<open>ReadType\<close> calls itself for every member of the entry it parses, at the offset that
  \<^verbatim>\<open>FindIndexFromTypeId\<close> returns for the member's id. Nothing in the source bounds the
  depth of these calls (an entry that lists its own id as a member is read again and again),
  so the model counts the depth down from \<open>fuel\<close> and returns \<open>None\<close> when it is used up.
\<close>

definition then_run :: "(fault + 'a) option \<Rightarrow> ('a \<Rightarrow> (fault + 'b) option)
    \<Rightarrow> (fault + 'b) option" where
  "then_run m f =
     (case m of None \<Rightarrow> None | Some (Inl e) \<Rightarrow> Some (Inl e) | Some (Inr x) \<Rightarrow> f x)"

lemma then_run_cong [fundef_cong]:
  "m = m' \<Longrightarrow> (\<And>x. m' = Some (Inr x) \<Longrightarrow> f x = f' x) \<Longrightarrow> then_run m f = then_run m' f'"
  by (simp add: then_run_def split: option.splits sum.splits)

lemma then_run_simps [simp]:
  "then_run None f = None"
  "then_run (Some (Inl e)) f = Some (Inl e)"
  "then_run (Some (Inr x)) f = f x"
  by (simp_all add: then_run_def)

lemma then_run_eq_Some_Inr:
  "then_run m f = Some (Inr y) \<longleftrightarrow> (\<exists>x. m = Some (Inr x) \<and> f x = Some (Inr y))"
  by (simp add: then_run_def split: option.splits sum.splits)

fun ReadType :: "nat \<Rightarrow> uint32 \<Rightarrow> 'a FxSerializerBaseSection_scheme
    \<Rightarrow> (fault + (FxSerializedType \<times> 'a FxSerializerBaseSection_scheme)) option"
and ReadType_members :: "nat \<Rightarrow> nat \<Rightarrow> 'a FxSerializerBaseSection_scheme
    \<Rightarrow> (fault + (FxSerializedType list \<times> 'a FxSerializerBaseSection_scheme)) option" where
  "ReadType 0 index s = None"
| "ReadType (Suc fuel) index s =
     (let old_index = Index s in
      then_run
        (then_run (Some (Read8 (s\<lparr>Index := index\<rparr>))) (\<lambda>(sanity_header, s1).
           if sanity_header \<noteq> TypeIdentHeader then Some (Inr (FxSerializedType 0 0 [], s1))
           else
         then_run (Some (Read16 s1)) (\<lambda>(type_id, s2).
         then_run (Some (Read16 s2)) (\<lambda>(type_size, s3).
         then_run (Some (Read8 s3)) (\<lambda>(number_of_members, s4).
         then_run (ReadType_members fuel (unat number_of_members) s4) (\<lambda>(members, s5).
         then_run (Some (Read8 s5)) (\<lambda>(sanity_footer, s6).
           Some (Inr (FxSerializedType type_id type_size members, s6)))))))))
        (\<lambda>(ty, s'). Some (Inr (ty, s'\<lparr>Index := old_index\<rparr>))))"
| "ReadType_members fuel 0 s = Some (Inr ([], s))"
| "ReadType_members fuel (Suc k) s =
     then_run (Some (Read16 s)) (\<lambda>(member_size, s1).
     then_run (Some (Read16 s1)) (\<lambda>(member_id, s2).
     then_run (Some (FindIndexFromTypeId member_id s2)) (\<lambda>(member_index, s3).
     then_run (ReadType fuel member_index s3) (\<lambda>(member, s4).
     then_run (ReadType_members fuel k s4) (\<lambda>(rest, s5).
       Some (Inr (member # rest, s5)))))))"

subsection \<open>The lookups leave the section as they found it\<close>

lemma FindIndex_loop_moved:
  "FindIndex_loop id' e s = Inr (x, r, s') \<Longrightarrow> cursor_moved s s'"
proof (induction id' e s rule: FindIndex_loop.induct)
  case (1 id' e s)
  show ?case
  proof (cases "Index s < Size s")
    case False
    with "1.prems" show ?thesis by (simp add: FindIndex_loop.simps [of id' e s])
  next
    case True
    with "1.prems" obtain brk s1 where b: "FindIndex_body id' s = Inr (brk, s1)"
      and k: "(case brk of Some exit \<Rightarrow> Inr (exit, Index s, s1)
                | None \<Rightarrow> FindIndex_loop id' (Index s) s1) = Inr (x, r, s')"
      by (auto simp: FindIndex_loop.simps [of id' e s] then_do_eq_Inr)
    note m = FindIndex_body_Inr(1) [OF b]
    show ?thesis
    proof (cases brk)
      case None
      with k have "FindIndex_loop id' (Index s) s1 = Inr (x, r, s')" by simp
      then have "cursor_moved s1 s'"
        using "1.IH" [OF True b refl None] by simp
      with m show ?thesis by (rule cursor_moved_trans)
    next
      case (Some exit)
      with k m show ?thesis by simp
    qed
  qed
qed

lemma FindIndexFromTypeId_scan_same:
  assumes "FindIndexFromTypeId_scan id' s = Inr (x, r, s')"
  shows "s' = s"
proof -
  from assms obtain s1 where l: "FindIndex_loop id' 0 (s\<lparr>Index := 0\<rparr>) = Inr (x, r, s1)"
    and e: "s' = s1\<lparr>Index := Index s\<rparr>"
    by (auto simp: FindIndexFromTypeId_scan_def then_do_eq_Inr)
  have "cursor_moved s s1"
    using cursor_moved_trans [OF cursor_moved_update FindIndex_loop_moved [OF l]] .
  then show ?thesis using e by (simp add: cursor_moved_back)
qed

lemma FindIndexFromTypeId_same:
  assumes "FindIndexFromTypeId id' s = Inr (r, s')"
  shows "s' = s"
  using assms FindIndexFromTypeId_scan_same [of id' s]
  by (auto simp: FindIndexFromTypeId_def then_do_eq_Inr)

lemma then_runE:
  assumes "then_run m f = Some (Inr y)"
  obtains x where "m = Some (Inr x)" and "f x = Some (Inr y)"
  using assms by (auto simp: then_run_eq_Some_Inr)

lemma ReadType_members_moved_step:
  assumes T: "\<And>index s ty s'. ReadType fuel index (s :: 'a FxSerializerBaseSection_scheme)
                = Some (Inr (ty, s')) \<Longrightarrow> s' = s"
  shows "ReadType_members fuel k (s :: 'a FxSerializerBaseSection_scheme) = Some (Inr (ms, s''))
           \<Longrightarrow> cursor_moved s s''"
proof (induction k arbitrary: s ms s'')
  case 0
  then show ?case by simp
next
  case (Suc k)
  from Suc.prems obtain a s1 b s2 i s3 m s4 rest where
    r1: "Read16 s = Inr (a, s1)" and r2: "Read16 s1 = Inr (b, s2)"
    and f: "FindIndexFromTypeId b s2 = Inr (i, s3)"
    and t: "ReadType fuel i s3 = Some (Inr (m, s4))"
    and k: "ReadType_members fuel k s4 = Some (Inr (rest, s''))"
    by (auto simp: then_run_eq_Some_Inr)
  have "s3 = s2" using f by (rule FindIndexFromTypeId_same)
  moreover have "s4 = s3" using t by (rule T)
  ultimately have "cursor_moved s s4"
    using Read16_moved [OF r1] Read16_moved [OF r2] by (blast intro: cursor_moved_trans)
  with Suc.IH [OF k] show ?case by (blast intro: cursor_moved_trans)
qed

lemma ReadType_Suc_same:
  assumes H: "\<And>k s ms s''. ReadType_members fuel k (s :: 'a FxSerializerBaseSection_scheme)
                = Some (Inr (ms, s'')) \<Longrightarrow> cursor_moved s s''"
    and t: "ReadType (Suc fuel) index (s :: 'a FxSerializerBaseSection_scheme) = Some (Inr (ty, s'))"
  shows "s' = s"
proof -
  from t obtain ty0 s5 where
    "then_run (Some (Read8 (s\<lparr>Index := index\<rparr>))) (\<lambda>(sanity_header, s1).
       if sanity_header \<noteq> TypeIdentHeader then Some (Inr (FxSerializedType 0 0 [], s1))
       else
     then_run (Some (Read16 s1)) (\<lambda>(type_id, s2).
     then_run (Some (Read16 s2)) (\<lambda>(type_size, s3).
     then_run (Some (Read8 s3)) (\<lambda>(number_of_members, s4).
     then_run (ReadType_members fuel (unat number_of_members) s4) (\<lambda>(members, s5).
     then_run (Some (Read8 s5)) (\<lambda>(sanity_footer, s6).
       Some (Inr (FxSerializedType type_id type_size members, s6)))))))) = Some (Inr (ty0, s5))"
    and e: "s' = s5\<lparr>Index := Index s\<rparr>"
    by (auto simp: then_run_eq_Some_Inr Let_def)
  then obtain h t1 where q1: "Read8 (s\<lparr>Index := index\<rparr>) = Inr (h, t1)"
    and q: "h \<noteq> TypeIdentHeader \<and> s5 = t1 \<or>
      (\<exists>tid t2 sz t3 n t4 mm t5 ft. Read16 t1 = Inr (tid, t2) \<and> Read16 t2 = Inr (sz, t3)
         \<and> Read8 t3 = Inr (n, t4)
         \<and> ReadType_members fuel (unat n) t4 = Some (Inr (mm, t5))
         \<and> Read8 t5 = Inr (ft, s5))"
    by (auto simp: then_run_eq_Some_Inr split: if_splits)
  have m1: "cursor_moved s t1"
    using cursor_moved_trans [OF cursor_moved_update Read8_moved [OF q1]] .
  from q have "cursor_moved s s5"
  proof (elim disjE exE conjE)
    assume "s5 = t1"
    with m1 show ?thesis by simp
  next
    fix tid t2 sz t3 n t4 mm t5 ft
    assume a: "Read16 t1 = Inr (tid, t2)" "Read16 t2 = Inr (sz, t3)"
      "Read8 t3 = Inr (n, t4)" "ReadType_members fuel (unat n) t4 = Some (Inr (mm, t5))"
      "Read8 t5 = Inr (ft, s5)"
    have "cursor_moved t4 t5" using a(4) by (rule H)
    with m1 Read16_moved [OF a(1)] Read16_moved [OF a(2)] Read8_moved [OF a(3)]
      Read8_moved [OF a(5)]
    show ?thesis by (blast intro: cursor_moved_trans)
  qed
  then show ?thesis using e by (simp add: cursor_moved_back)
qed

lemma ReadType_same:
  "ReadType fuel index (s :: 'a FxSerializerBaseSection_scheme) = Some (Inr (ty, s')) \<Longrightarrow> s' = s"
proof (induction fuel arbitrary: index s ty s')
  case 0
  then show ?case by simp
next
  case (Suc fuel)
  show ?case
  proof (rule ReadType_Suc_same [OF _ Suc.prems])
    fix k ms and s s'' :: "'a FxSerializerBaseSection_scheme"
    assume "ReadType_members fuel k s = Some (Inr (ms, s''))"
    then show "cursor_moved s s''"
      by (rule ReadType_members_moved_step [rotated]) (rule Suc.IH)
  qed
qed

subsection \<open>What the scan returns\<close>







subsection \<open>Example type sections\<close>

text \<open>
  Two entries without members, ids 1 and 2, in a section of 14 bytes; the same with the
  start marker of the second entry overwritten; and a section filled by one entry.
\<close>

definition two_entries :: FxSerializerBaseSection where
  "two_entries = Create 14 [0xEF, 0, 1, 0, 4, 0, 0xBE, 0xEF, 0, 2, 0, 4, 0, 0xBE]"

definition second_corrupt :: FxSerializerBaseSection where
  "second_corrupt = Create 14 [0xEF, 0, 1, 0, 4, 0, 0xBE, 0, 0, 2, 0, 4, 0, 0xBE]"


definition one_entry_full :: FxSerializerBaseSection where
  "one_entry_full = Create 7 [0xEF, 0, 1, 0, 4, 0, 0xBE]"

text \<open>An entry with id 1 and one member of id 2, followed by the entry of id 2.\<close>

definition nested_entries :: FxSerializerBaseSection where
  "nested_entries =
     Create 18 [0xEF, 0, 1, 0, 8, 1, 0, 4, 0, 2, 0xBE, 0xEF, 0, 2, 0, 4, 0, 0xBE]"

section \<open>Claims about the schema lookup\<close>




text \<open>
  Claim C10. Whenever \<^verbatim>\<open>FindIndexFromTypeId\<close> or \<^verbatim>\<open>ReadType\<close> returns, by whichever path (the id
  found, the section exhausted, a marker mismatch), the cursor \<^verbatim>\<open>Index\<close> has the value it had
  before the call; indeed the whole section is as it was. (A failed \<^verbatim>\<open>assert\<close> aborts the
  program, and a \<^verbatim>\<open>ReadType\<close> whose calls nest without end does not return: in neither case
  does the caller observe a cursor.)
\<close>

theorem lookups_restore_Index:
  "(FindIndexFromTypeId_scan id' s = Inr (exit, r, s') \<longrightarrow> Index s' = Index s \<and> s' = s)
   \<and> (FindIndexFromTypeId id' s = Inr (r, s') \<longrightarrow> Index s' = Index s \<and> s' = s)
   \<and> (ReadType fuel index s = Some (Inr (ty, s')) \<longrightarrow> Index s' = Index s \<and> s' = s)"
  using FindIndexFromTypeId_scan_same [of id' s exit r s']
    FindIndexFromTypeId_same [of id' s r s'] ReadType_same [of fuel index s ty s']
  by blast

theorem lookups_restore_Index_witness:
  "FindIndexFromTypeId_scan 2 (two_entries\<lparr>Index := 5\<rparr>)
      = Inr (IdFound, 7, two_entries\<lparr>Index := 5\<rparr>)
   \<and> FindIndexFromTypeId_scan 2 (one_entry_full\<lparr>Index := 5\<rparr>)
      = Inr (SectionExhausted, 0, one_entry_full\<lparr>Index := 5\<rparr>)
   \<and> FindIndexFromTypeId_scan 2 (second_corrupt\<lparr>Index := 5\<rparr>)
      = Inr (HeaderSanityError, 7, second_corrupt\<lparr>Index := 5\<rparr>)
   \<and> FindIndexFromTypeId 2 (two_entries\<lparr>Index := 5\<rparr>) = Inr (7, two_entries\<lparr>Index := 5\<rparr>)
   \<and> ReadType 2 0 (nested_entries\<lparr>Index := 5\<rparr>)
      = Some (Inr (FxSerializedType 1 8 [FxSerializedType 2 4 []], nested_entries\<lparr>Index := 5\<rparr>))
   \<and> Index (nested_entries\<lparr>Index := 5\<rparr>) = 5"
proof -
  have a: "FindIndexFromTypeId_scan 2 (two_entries\<lparr>Index := 5\<rparr>)
      = Inr (IdFound, 7, two_entries\<lparr>Index := 5\<rparr>)"
    by code_simp
  have b: "FindIndexFromTypeId_scan 2 (one_entry_full\<lparr>Index := 5\<rparr>)
      = Inr (SectionExhausted, 0, one_entry_full\<lparr>Index := 5\<rparr>)"
    by code_simp
  have c: "FindIndexFromTypeId_scan 2 (second_corrupt\<lparr>Index := 5\<rparr>)
      = Inr (HeaderSanityError, 7, second_corrupt\<lparr>Index := 5\<rparr>)"
    by code_simp
  have d: "FindIndexFromTypeId 2 (two_entries\<lparr>Index := 5\<rparr>) = Inr (7, two_entries\<lparr>Index := 5\<rparr>)"
    by code_simp
  have e: "ReadType 2 0 (nested_entries\<lparr>Index := 5\<rparr>)
      = Some (Inr (FxSerializedType 1 8 [FxSerializedType 2 4 []], nested_entries\<lparr>Index := 5\<rparr>))"
    by code_simp
  from a b c d e
    lookups_restore_Index [of 2 "two_entries\<lparr>Index := 5\<rparr>" IdFound 7
      "two_entries\<lparr>Index := 5\<rparr>" 2 0 "FxSerializedType 1 8 [FxSerializedType 2 4 []]"]
  show ?thesis by simp
qed

section \<open>The type-id registry (\<^verbatim>\<open>FxSerializeUtil\<close>)\<close>

text \<open>
  \<^verbatim>\<open>GetTypeId_<T>()\<close> holds a function-local \<^verbatim>\<open>static uint16 tid = ++SerializeTypeIdCount\<close>: the
  initialiser runs at the first call of each instantiation, and later calls return the stored
  value. The state is the counter together with the \<^verbatim>\<open>tid\<close> of every instantiation that has
  been initialised; \<open>'ty\<close> stands for the C++ types (with \<^verbatim>\<open>const\<close> and references removed, as
  \<^verbatim>\<open>GetTypeId\<close> does before it calls \<^verbatim>\<open>GetTypeId_\<close>).
\<close>

record 'ty FxSerializeUtil =
  SerializeTypeIdCount :: uint16
  tid :: "'ty \<Rightarrow> uint16 option"

definition FxSerializeUtil_start :: "'ty FxSerializeUtil" where
  "FxSerializeUtil_start = \<lparr>SerializeTypeIdCount = 0, tid = (\<lambda>T. None)\<rparr>"

definition GetTypeId :: "'ty \<Rightarrow> 'ty FxSerializeUtil \<Rightarrow> uint16 \<times> 'ty FxSerializeUtil" where
  "GetTypeId T u =
     (case tid u T of
        Some t \<Rightarrow> (t, u)
      | None \<Rightarrow>
          (let c = SerializeTypeIdCount u + 1
           in (c, u\<lparr>SerializeTypeIdCount := c, tid := (tid u)(T \<mapsto> c)\<rparr>)))"

text \<open>The registry after the types \<open>ts\<close> have been requested in this order, from program start.\<close>

definition requested :: "'ty list \<Rightarrow> 'ty FxSerializeUtil" where
  "requested ts = fold (\<lambda>T u. snd (GetTypeId T u)) ts FxSerializeUtil_start"

lemma requested_Nil [simp]: "requested [] = FxSerializeUtil_start"
  by (simp add: requested_def)

lemma requested_snoc [simp]: "requested (ts @ [T]) = snd (GetTypeId T (requested ts))"
  by (simp add: requested_def)

text \<open>How many distinct types were requested before \<open>T\<close> was first requested.\<close>

definition earlier :: "'ty list \<Rightarrow> 'ty \<Rightarrow> nat" where
  "earlier ts T = card (set (takeWhile (\<lambda>x. x \<noteq> T) ts))"

lemma earlier_snoc_old: "T \<in> set ts \<Longrightarrow> earlier (ts @ [x]) T = earlier ts T"
  by (simp add: earlier_def takeWhile_append1)

lemma takeWhile_all: "T \<notin> set ts \<Longrightarrow> takeWhile (\<lambda>x. x \<noteq> T) ts = ts"
  by (induction ts) auto

lemma takeWhile_snoc_new: "T \<notin> set ts \<Longrightarrow> takeWhile (\<lambda>x. x \<noteq> T) (ts @ [T]) = ts"
  by (induction ts) auto

lemma earlier_snoc_new: "T \<notin> set ts \<Longrightarrow> earlier (ts @ [T]) T = card (set ts)"
  by (simp add: earlier_def takeWhile_snoc_new)

lemma requested_state:
  "SerializeTypeIdCount (requested ts) = of_nat (card (set ts))
   \<and> (\<forall>T. tid (requested ts) T
          = (if T \<in> set ts then Some (of_nat (earlier ts T) + 1) else None))"
proof (induction ts rule: rev_induct)
  case Nil
  show ?case by (simp add: FxSerializeUtil_start_def)
next
  case (snoc x ts)
  show ?case
  proof (cases "x \<in> set ts")
    case True
    then have "snd (GetTypeId x (requested ts)) = requested ts"
      using snoc by (simp add: GetTypeId_def)
    moreover have "set (ts @ [x]) = set ts" using True by auto
    ultimately show ?thesis
      using snoc True by (auto simp: earlier_snoc_old)
  next
    case False
    then have new: "snd (GetTypeId x (requested ts))
        = (requested ts)\<lparr>SerializeTypeIdCount := of_nat (card (set ts)) + 1,
                         tid := (tid (requested ts))(x \<mapsto> of_nat (card (set ts)) + 1)\<rparr>"
      using snoc by (simp add: GetTypeId_def Let_def)
    have "card (set (ts @ [x])) = Suc (card (set ts))" using False by simp
    then show ?thesis
      using snoc False by (auto simp: new earlier_snoc_old earlier_snoc_new)
  qed
qed

lemma GetTypeId_requested:
  "fst (GetTypeId T (requested ts))
     = (if T \<in> set ts then of_nat (earlier ts T) + 1 else of_nat (card (set ts)) + 1)"
  using requested_state [of ts] by (simp add: GetTypeId_def Let_def)

lemma earlier_append_old: "T \<in> set ts \<Longrightarrow> earlier (ts @ ts') T = earlier ts T"
  by (simp add: earlier_def takeWhile_append1)

lemma earlier_less: "T \<in> set ts \<Longrightarrow> earlier ts T < card (set ts)"
proof -
  assume T: "T \<in> set ts"
  have "set (takeWhile (\<lambda>x. x \<noteq> T) ts) \<subseteq> set ts - {T}"
    using set_takeWhileD by fastforce
  then have "earlier ts T \<le> card (set ts - {T})"
    unfolding earlier_def by (intro card_mono) auto
  also have "\<dots> < card (set ts)" using T by (intro card_Diff1_less) simp_all
  finally show ?thesis .
qed

lemma earlier_order:
  assumes "T1 \<in> set ts" and "T2 \<in> set ts" and "T1 \<noteq> T2"
  shows "earlier ts T1 \<noteq> earlier ts T2"
  using assms
proof (induction ts rule: rev_induct)
  case Nil
  then show ?case by simp
next
  case (snoc x ts)
  show ?case
  proof (cases "T1 \<in> set ts \<and> T2 \<in> set ts")
    case True
    with snoc show ?thesis by (simp add: earlier_snoc_old)
  next
    case False
    with snoc.prems consider "T1 = x" "T1 \<notin> set ts" "T2 \<in> set ts"
      | "T2 = x" "T2 \<notin> set ts" "T1 \<in> set ts"
      by auto
    then show ?thesis
    proof cases
      case 1
      then show ?thesis
        using earlier_less [of T2 ts] by (simp add: earlier_snoc_old earlier_snoc_new)
    next
      case 2
      then show ?thesis
        using earlier_less [of T1 ts] by (simp add: earlier_snoc_old earlier_snoc_new)
    qed
  qed
qed

lemma uint16_of_nat_inj:
  fixes a b :: nat
  assumes "a < 65536" and "b < 65536" and "(of_nat a :: uint16) = of_nat b"
  shows "a = b"
proof -
  have ua: "unat (of_nat a :: uint16) = a"
    by (rule of_nat_inverse [OF refl]) (use assms(1) in simp)
  have ub: "unat (of_nat b :: uint16) = b"
    by (rule of_nat_inverse [OF refl]) (use assms(2) in simp)
  have "unat (of_nat a :: uint16) = unat (of_nat b :: uint16)"
    by (rule arg_cong [OF assms(3)])
  then show ?thesis by (simp only: ua ub)
qed

section \<open>Claims about the registry\<close>

text \<open>
  Claim C8, as the code has it. Requests are idempotent without any bound: whatever was
  requested before (\<open>ts\<close>) and in between (\<open>ts'\<close>), a later request for \<open>T\<close> returns what the request
  made after \<open>ts\<close> returned. The first request for a type returns the number of distinct types
  requested before it plus one, in 16-bit arithmetic; the very first request returns 1. While
  at most 65535 distinct types have been requested, two different types have different ids
  and no id is 0.
\<close>

theorem GetTypeId_idempotent_sequential_injective:
  "fst (GetTypeId T (requested (ts @ T # ts'))) = fst (GetTypeId T (requested ts))
   \<and> (T \<notin> set ts \<longrightarrow> fst (GetTypeId T (requested ts)) = of_nat (card (set ts)) + 1)
   \<and> fst (GetTypeId T FxSerializeUtil_start) = 1
   \<and> (card (set ts) \<le> 65535 \<and> T1 \<in> set ts \<and> T2 \<in> set ts \<and> T1 \<noteq> T2 \<longrightarrow>
        fst (GetTypeId T1 (requested ts)) \<noteq> fst (GetTypeId T2 (requested ts)))
   \<and> (card (set ts) \<le> 65535 \<and> T1 \<in> set ts \<longrightarrow> fst (GetTypeId T1 (requested ts)) \<noteq> 0)"
proof (intro conjI impI)
  show "fst (GetTypeId T (requested (ts @ T # ts'))) = fst (GetTypeId T (requested ts))"
  proof (cases "T \<in> set ts")
    case True
    then show ?thesis by (simp add: GetTypeId_requested earlier_append_old)
  next
    case False
    have "earlier ((ts @ [T]) @ ts') T = earlier (ts @ [T]) T"
      by (rule earlier_append_old) simp
    then show ?thesis using False by (simp add: GetTypeId_requested earlier_snoc_new)
  qed
  show "fst (GetTypeId T (requested ts)) = of_nat (card (set ts)) + 1" if "T \<notin> set ts"
    using that by (simp add: GetTypeId_requested)
  show "fst (GetTypeId T FxSerializeUtil_start) = 1"
    using GetTypeId_requested [of T "[]"] by simp
  show "fst (GetTypeId T1 (requested ts)) \<noteq> fst (GetTypeId T2 (requested ts))"
    if a: "card (set ts) \<le> 65535 \<and> T1 \<in> set ts \<and> T2 \<in> set ts \<and> T1 \<noteq> T2"
  proof
    assume "fst (GetTypeId T1 (requested ts)) = fst (GetTypeId T2 (requested ts))"
    then have "(of_nat (earlier ts T1) :: uint16) = of_nat (earlier ts T2)"
      using a by (simp add: GetTypeId_requested)
    moreover have "earlier ts T1 < 65536" "earlier ts T2 < 65536"
      using a earlier_less [of T1 ts] earlier_less [of T2 ts] by simp_all
    ultimately have "earlier ts T1 = earlier ts T2" by (intro uint16_of_nat_inj)
    then show False using a earlier_order [of T1 ts T2] by simp
  qed
  show "fst (GetTypeId T1 (requested ts)) \<noteq> 0"
    if a: "card (set ts) \<le> 65535 \<and> T1 \<in> set ts"
  proof
    assume "fst (GetTypeId T1 (requested ts)) = 0"
    then have "(of_nat (earlier ts T1) :: uint16) + 1 = 0"
      using a by (simp add: GetTypeId_requested)
    then have "(of_nat (Suc (earlier ts T1)) :: uint16) = of_nat 0"
      by (simp add: add.commute)
    moreover have "Suc (earlier ts T1) < 65536"
      using a earlier_less [of T1 ts] by simp
    ultimately have "Suc (earlier ts T1) = 0" by (intro uint16_of_nat_inj) simp_all
    then show False by simp
  qed
qed

text \<open>Three types, the first requested twice.\<close>

theorem GetTypeId_idempotent_sequential_injective_witness:
  "fst (GetTypeId ''Vec3f'' (requested ([''Vec3f''] @ ''Vec3f'' # [''Player'', ''int32'']))) = 1
   \<and> fst (GetTypeId ''Vec3f'' (requested [''Vec3f''])) = 1
   \<and> fst (GetTypeId ''int32'' (requested [''Vec3f'', ''Vec3f'', ''Player''])) = 3
   \<and> fst (GetTypeId ''Player'' (requested [''Vec3f'', ''Vec3f'', ''Player'', ''int32''])) = 2
   \<and> fst (GetTypeId ''Vec3f'' (requested [''Vec3f'', ''Vec3f'', ''Player'', ''int32'']))
       \<noteq> fst (GetTypeId ''Player'' (requested [''Vec3f'', ''Vec3f'', ''Player'', ''int32'']))
   \<and> fst (GetTypeId ''Vec3f'' (requested [''Vec3f'', ''Vec3f'', ''Player'', ''int32''])) \<noteq> 0"
proof -
  have c: "card (set [''Vec3f'', ''Vec3f'', ''Player'', ''int32'']) = 3"
    "card (set [''Vec3f'', ''Vec3f'', ''Player'']) = 2" by simp_all
  have e: "fst (GetTypeId ''Player'' (requested [''Vec3f'', ''Vec3f'', ''Player'', ''int32''])) = 2"
    "fst (GetTypeId ''Vec3f'' (requested [''Vec3f''])) = 1"
    by (simp_all add: requested_def GetTypeId_def FxSerializeUtil_start_def)
  show ?thesis
    using GetTypeId_idempotent_sequential_injective
      [of "''Vec3f''" "[''Vec3f'']" "[''Player'', ''int32'']" "''Vec3f''" "''Player''"]
      GetTypeId_idempotent_sequential_injective
      [of "''int32''" "[''Vec3f'', ''Vec3f'', ''Player'']" "[]" "''Vec3f''" "''Player''"]
      GetTypeId_idempotent_sequential_injective
      [of "''int32''" "[''Vec3f'', ''Vec3f'', ''Player'', ''int32'']" "[]" "''Vec3f''" "''Player''"]
      c e
    by simp
qed

text \<open>
  Claim C8 as stated does not hold: the counter is a \<^verbatim>\<open>uint16\<close>. With the types numbered
  \<open>0, 1, 2, \<dots>\<close> and requested in this order, type 65535 (the 65536th) receives id 0, and type
  65536 receives id 1, which type 0 holds.
\<close>

theorem GetTypeId_wraps_counterexample:
  "fst (GetTypeId (65535 :: nat) (requested [0..<65535])) = 0
   \<and> fst (GetTypeId (65536 :: nat) (requested [0..<65536])) = 1
   \<and> fst (GetTypeId (0 :: nat) (requested ([0..<65536] @ [65536]))) = 1"
proof -
  have "fst (GetTypeId (65535 :: nat) (requested [0..<65535])) = of_nat (card (set [0..<65535::nat])) + 1"
    by (subst GetTypeId_requested) simp
  then have a: "fst (GetTypeId (65535 :: nat) (requested [0..<65535])) = 0" by simp
  have "fst (GetTypeId (65536 :: nat) (requested [0..<65536])) = of_nat (card (set [0..<65536::nat])) + 1"
    by (subst GetTypeId_requested) simp
  then have b: "fst (GetTypeId (65536 :: nat) (requested [0..<65536])) = 1" by simp
  have l: "[0..<65536] = (0::nat) # [Suc 0..<65536]" by (rule upt_conv_Cons) simp
  have "earlier ([0..<65536] @ [65536]) (0::nat) = earlier [0..<65536] 0"
    by (rule earlier_append_old) simp
  also have "\<dots> = 0" by (subst l) (simp add: earlier_def)
  finally have "fst (GetTypeId (0 :: nat) (requested ([0..<65536] @ [65536]))) = 1"
    by (subst GetTypeId_requested) simp
  with a b show ?thesis by simp
qed

section \<open>Serializable types and values\<close>

text \<open>
  The types the library is used with: \<^verbatim>\<open>int32\<close>, \<^verbatim>\<open>float32\<close> and \<^verbatim>\<open>std::string\<close> (which have
  \<^verbatim>\<open>FxSerializeValue\<close> specialisations), \<^verbatim>\<open>bool\<close> (which has none, as in \<^verbatim>\<open>Example.cpp\<close>), and structs
  that use \<^verbatim>\<open>FX_SERIALIZABLE_MEMBERS\<close>. A struct type is given by its name, its \<^verbatim>\<open>sizeof\<close> and the
  types of the members the macro lists, in that order.
\<close>

datatype cpp_type =
    T_int32
  | T_float32
  | T_string
  | T_bool
  | T_struct string nat "cpp_type list"

text \<open>
  A \<^verbatim>\<open>float32\<close> is represented by the rational number it denotes (finite values only);
  an \<^verbatim>\<open>int32\<close> by its 32 bits; a string by its bytes.
\<close>

datatype cpp_value =
    V_int32 uint32
  | V_float32 rat
  | V_string "uint8 list"
  | V_bool bool
  | V_struct string nat "cpp_value list"

fun type_of :: "cpp_value \<Rightarrow> cpp_type" where
  "type_of (V_int32 x) = T_int32"
| "type_of (V_float32 x) = T_float32"
| "type_of (V_string x) = T_string"
| "type_of (V_bool x) = T_bool"
| "type_of (V_struct name sz members) = T_struct name sz (map type_of members)"

text \<open>
  \<^verbatim>\<open>sizeof\<close>: 4 for \<^verbatim>\<open>int32\<close> and \<^verbatim>\<open>float32\<close>, 1 for \<^verbatim>\<open>bool\<close>; for \<^verbatim>\<open>std::string\<close> the value of the
  common 64-bit standard libraries is taken (32); a struct carries its own.
\<close>

fun sizeof :: "cpp_type \<Rightarrow> nat" where
  "sizeof T_int32 = 4"
| "sizeof T_float32 = 4"
| "sizeof T_string = 32"
| "sizeof T_bool = 1"
| "sizeof (T_struct name sz members) = sz"

subsection \<open>Conversions between \<^verbatim>\<open>float32\<close> and \<^verbatim>\<open>uint32\<close>\<close>

text \<open>
  \<^verbatim>\<open>static_cast<uint32>(value)\<close> of a \<^verbatim>\<open>float32\<close> discards the fractional part; the behaviour is
  undefined when the truncated value is not a \<^verbatim>\<open>uint32\<close>.
\<close>

definition truncate_rat :: "rat \<Rightarrow> int" where
  "truncate_rat r = (if 0 \<le> r then \<lfloor>r\<rfloor> else \<lceil>r\<rceil>)"

definition float32_to_uint32 :: "rat \<Rightarrow> uint32 option" where
  "float32_to_uint32 r =
     (let t = truncate_rat r in if 0 \<le> t \<and> t < 2 ^ 32 then Some (word_of_int t) else None)"

text \<open>
  The implicit conversion of a \<^verbatim>\<open>uint32\<close> to \<^verbatim>\<open>float32\<close> in \<^verbatim>\<open>(*value) = Read32()\<close> is exact when
  the number fits the 24-bit significand and rounds to a neighbouring \<^verbatim>\<open>float32\<close> otherwise
  (to nearest, ties to even, the default rounding mode).
\<close>

function bits_over_24 :: "nat \<Rightarrow> nat" where
  "bits_over_24 n = (if n < 2 ^ 24 then 0 else Suc (bits_over_24 (n div 2)))"
  by pat_completeness auto
termination
  by (relation "measure (\<lambda>n. n)") auto

declare bits_over_24.simps [simp del]

definition uint32_to_float32 :: "uint32 \<Rightarrow> rat" where
  "uint32_to_float32 w =
     (let n = unat w; e = bits_over_24 n; q = n div 2 ^ e; r = n mod 2 ^ e;
          q' = (if 2 ^ e < 2 * r \<or> (2 * r = 2 ^ e \<and> odd q) then q + 1 else q)
      in of_nat (q' * 2 ^ e))"

section \<open>The archive (\<^verbatim>\<open>FxSerializerIO\<close>)\<close>

record FxSerializerIO =
  TypeSection :: FxSerializerTypeSection
  DataSection :: FxSerializerBaseSection

text \<open>
  The constructor creates both sections with \<open>buffer_size\<close> bytes; \<open>mem_t\<close> and \<open>mem_d\<close> are
  the contents of the two fresh blocks.
\<close>

definition FxSerializerIO_new :: "uint32 \<Rightarrow> uint8 list \<Rightarrow> uint8 list \<Rightarrow> FxSerializerIO" where
  "FxSerializerIO_new buffer_size mem_t mem_d =
     \<lparr>TypeSection = FxSerializerBaseSection.extend (Create buffer_size mem_t)
                       (FxSerializerTypeSection.fields []),
      DataSection = Create buffer_size mem_d\<rparr>"

subsection \<open>Writing types\<close>

text \<open>
  Constructing an object of a struct type initialises its members and then its
  \<^verbatim>\<open>SerializerTypeId_\<close>, whose initialiser calls \<^verbatim>\<open>GetTypeId\<close>; member structs do the same first.
  Only the effect on the registry is of interest.
\<close>

fun construct :: "cpp_type \<Rightarrow> cpp_type FxSerializeUtil \<Rightarrow> cpp_type FxSerializeUtil"
and construct_members :: "cpp_type list \<Rightarrow> cpp_type FxSerializeUtil \<Rightarrow> cpp_type FxSerializeUtil" where
  "construct (T_struct name sz members) u =
     snd (GetTypeId (T_struct name sz members) (construct_members members u))"
| "construct T_int32 u = u"
| "construct T_float32 u = u"
| "construct T_string u = u"
| "construct T_bool u = u"
| "construct_members [] u = u"
| "construct_members (T # Ts) u = construct_members Ts (construct T u)"

text \<open>The member loop of \<^verbatim>\<open>WriteTypeWithoutChecks\<close>: \<^verbatim>\<open>write_member_func\<close> for every argument.\<close>

fun write_member_func_pack :: "cpp_type list
    \<Rightarrow> cpp_type FxSerializeUtil \<times> 'a FxSerializerTypeSection_scheme
    \<Rightarrow> fault + (cpp_type FxSerializeUtil \<times> 'a FxSerializerTypeSection_scheme)" where
  "write_member_func_pack [] (u, ts) = Inr (u, ts)"
| "write_member_func_pack (arg # args) (u, ts) =
     (let (type_id, u1) = GetTypeId arg u in
      then_do (Write16 (of_nat (sizeof arg)) ts) (\<lambda>ts1.
      then_do (Write16 type_id ts1) (\<lambda>ts2.
        write_member_func_pack args (u1, ts2))))"

definition WriteTypeWithoutChecks :: "uint16 \<Rightarrow> uint16 \<Rightarrow> cpp_type list
    \<Rightarrow> cpp_type FxSerializeUtil \<times> 'a FxSerializerTypeSection_scheme
    \<Rightarrow> fault + (cpp_type FxSerializeUtil \<times> 'a FxSerializerTypeSection_scheme)" where
  "WriteTypeWithoutChecks type_id type_size args = (\<lambda>(u, ts).
     if IsTypePreviouslyWritten type_id ts then Inr (u, ts)
     else
       (let start_offset = Index ts in
        then_do (Write8 TypeIdentHeader ts) (\<lambda>ts1.
        then_do (Write16 type_id ts1) (\<lambda>ts2.
        then_do (Write16 type_size ts2) (\<lambda>ts3.
        then_do (Write8 (of_nat (length args)) ts3) (\<lambda>ts4.
        then_do (write_member_func_pack args (u, ts4)) (\<lambda>(u5, ts5).
        then_do (Write8 TypeIdentFooter ts5) (\<lambda>ts6.
          Inr (u5, ts6\<lparr>mRegisteredTypeIds := mRegisteredTypeIds ts6
                  @ [\<lparr>Entry_Id = type_id, Entry_Offset = start_offset\<rparr>]\<rparr>)))))))))"

text \<open>
  \<^verbatim>\<open>WriteTypeForTypeId<T>\<close>, the \<^verbatim>\<open>WriteTypeTo\<close> that the macro generates in a struct (it passes
  \<^verbatim>\<open>SerializerTypeId_\<close>, the id \<^verbatim>\<open>GetTypeId\<close> gave when the object was constructed, to
  \<^verbatim>\<open>WriteTypeAndMembers\<close>), and the fold of \<^verbatim>\<open>WriteTypeForTypeId\<close> over the member types in
  \<^verbatim>\<open>WriteTypeAndMembers\<close>. Types other than structs have no \<^verbatim>\<open>WriteTypeTo\<close>.
\<close>

fun WriteTypeForTypeId :: "cpp_type \<Rightarrow> cpp_type FxSerializeUtil \<times> FxSerializerIO
    \<Rightarrow> fault + (cpp_type FxSerializeUtil \<times> FxSerializerIO)"
and WriteTypeTo :: "cpp_type \<Rightarrow> cpp_type FxSerializeUtil \<times> FxSerializerIO
    \<Rightarrow> fault + (cpp_type FxSerializeUtil \<times> FxSerializerIO)"
and WriteTypeForTypeId_pack :: "cpp_type list \<Rightarrow> cpp_type FxSerializeUtil \<times> FxSerializerIO
    \<Rightarrow> fault + (cpp_type FxSerializeUtil \<times> FxSerializerIO)" where
  "WriteTypeForTypeId T (u, writer) =
     (let (type_id, u1) = GetTypeId T u in
      if IsTypePreviouslyWritten type_id (TypeSection writer) then Inr (u1, writer)
      else
        (case T of
           T_struct name sz members \<Rightarrow> WriteTypeTo T (construct T u1, writer)
         | _ \<Rightarrow>
           then_do (WriteTypeWithoutChecks type_id (of_nat (sizeof T)) [] (u1, TypeSection writer))
             (\<lambda>(u2, ts). Inr (u2, writer\<lparr>TypeSection := ts\<rparr>))))"
| "WriteTypeTo (T_struct name sz members) (u, writer) =
     (let (type_id, u1) = GetTypeId (T_struct name sz members) u in
      if IsTypePreviouslyWritten type_id (TypeSection writer) then Inr (u1, writer)
      else
        then_do (WriteTypeForTypeId_pack members (u1, writer)) (\<lambda>(u2, writer2).
        then_do (WriteTypeWithoutChecks type_id (of_nat sz) members (u2, TypeSection writer2))
          (\<lambda>(u3, ts). Inr (u3, writer2\<lparr>TypeSection := ts\<rparr>))))"
| "WriteTypeTo T_int32 (u, writer) = Inr (u, writer)"
| "WriteTypeTo T_float32 (u, writer) = Inr (u, writer)"
| "WriteTypeTo T_string (u, writer) = Inr (u, writer)"
| "WriteTypeTo T_bool (u, writer) = Inr (u, writer)"
| "WriteTypeForTypeId_pack [] (u, writer) = Inr (u, writer)"
| "WriteTypeForTypeId_pack (T # Ts) (u, writer) =
     then_do (WriteTypeForTypeId T (u, writer)) (WriteTypeForTypeId_pack Ts)"

subsection \<open>Writing records\<close>

definition DataIdentHeader :: uint8 where
  "DataIdentHeader = 0x0B"

definition DataIdentFooter :: uint8 where
  "DataIdentFooter = 0xB0"

definition WriteHeader :: "uint16 \<Rightarrow> FxHash \<Rightarrow> 'a FxSerializerBaseSection_scheme
    \<Rightarrow> fault + 'a FxSerializerBaseSection_scheme" where
  "WriteHeader type_id name_hash s =
     then_do (Write8 DataIdentHeader s) (\<lambda>s1.
     then_do (Write16 type_id s1) (\<lambda>s2.
       Write32 name_hash s2))"

definition WriteFooter :: "'a FxSerializerBaseSection_scheme
    \<Rightarrow> fault + 'a FxSerializerBaseSection_scheme" where
  "WriteFooter s = Write8 DataIdentFooter s"

text \<open>Running a data-section function on the \<^verbatim>\<open>DataSection\<close> of the archive.\<close>

definition on_data :: "(FxSerializerBaseSection \<Rightarrow> fault + FxSerializerBaseSection)
    \<Rightarrow> cpp_type FxSerializeUtil \<times> FxSerializerIO
    \<Rightarrow> fault + (cpp_type FxSerializeUtil \<times> FxSerializerIO)" where
  "on_data f = (\<lambda>(u, writer).
     then_do (f (DataSection writer)) (\<lambda>data. Inr (u, writer\<lparr>DataSection := data\<rparr>)))"

text \<open>
  \<^verbatim>\<open>FxSerializeValue\<close> with its specialisations (the unspecialised template only prints that
  the type is not serializable), \<^verbatim>\<open>WriteTo\<close> as generated by the macro, \<^verbatim>\<open>FxSerializeStruct\<close>, and
  the fold of \<^verbatim>\<open>FxSerializeValue\<close> over the members in it.
\<close>

fun FxSerializeValue :: "cpp_value \<Rightarrow> cpp_type FxSerializeUtil \<times> FxSerializerIO
    \<Rightarrow> fault + (cpp_type FxSerializeUtil \<times> FxSerializerIO)"
and WriteTo :: "FxHash \<Rightarrow> cpp_value \<Rightarrow> cpp_type FxSerializeUtil \<times> FxSerializerIO
    \<Rightarrow> fault + (cpp_type FxSerializeUtil \<times> FxSerializerIO)"
and FxSerializeStruct :: "uint16 \<Rightarrow> FxHash \<Rightarrow> cpp_value list
    \<Rightarrow> cpp_type FxSerializeUtil \<times> FxSerializerIO
    \<Rightarrow> fault + (cpp_type FxSerializeUtil \<times> FxSerializerIO)"
and FxSerializeValue_pack :: "cpp_value list \<Rightarrow> cpp_type FxSerializeUtil \<times> FxSerializerIO
    \<Rightarrow> fault + (cpp_type FxSerializeUtil \<times> FxSerializerIO)" where
  "FxSerializeValue (V_int32 x) st = on_data (Write32 x) st"
| "FxSerializeValue (V_float32 x) st =
     (case float32_to_uint32 x of
        None \<Rightarrow> Inl UndefinedConversion
      | Some w \<Rightarrow> on_data (Write32 w) st)"
| "FxSerializeValue (V_string x) st =
     (let str_size = (of_nat (length x) :: uint32) in
      then_do (on_data (Write16 (ucast str_size)) st) (on_data (WriteBuffer str_size x)))"
| "FxSerializeValue (V_bool x) st = Inr st"
| "FxSerializeValue (V_struct name sz members) st = WriteTo 0 (V_struct name sz members) st"
| "WriteTo name_hash (V_struct name sz members) st =
     then_do (WriteTypeTo (type_of (V_struct name sz members)) st) (\<lambda>(u1, writer1).
       let (type_id, u2) = GetTypeId (type_of (V_struct name sz members)) u1 in
       FxSerializeStruct type_id name_hash members (u2, writer1))"
| "WriteTo name_hash (V_int32 x) st = Inr st"
| "WriteTo name_hash (V_float32 x) st = Inr st"
| "WriteTo name_hash (V_string x) st = Inr st"
| "WriteTo name_hash (V_bool x) st = Inr st"
| "FxSerializeStruct type_id name_hash members st =
     then_do (on_data (WriteHeader type_id name_hash) st) (\<lambda>st1.
     then_do (FxSerializeValue_pack members st1) (\<lambda>st2.
       on_data WriteFooter st2))"
| "FxSerializeValue_pack [] st = Inr st"
| "FxSerializeValue_pack (v # vs) st =
     then_do (FxSerializeValue v st) (FxSerializeValue_pack vs)"

subsection \<open>Reading records\<close>

text \<open>
  \<^verbatim>\<open>FxDeserializeStruct\<close> returns \<^verbatim>\<open>void\<close>; what it printed before returning is kept as the
  status. The destination is a value of the struct's type whose members are overwritten.
\<close>

datatype read_status = ReadDone | HeaderIncorrect | NameHashesNotEqual | FooterIncorrect

definition on_data_read :: "(FxSerializerBaseSection \<Rightarrow> fault + ('x \<times> FxSerializerBaseSection))
    \<Rightarrow> FxSerializerIO \<Rightarrow> fault + ('x \<times> FxSerializerIO)" where
  "on_data_read f writer =
     then_do (f (DataSection writer)) (\<lambda>(x, data). Inr (x, writer\<lparr>DataSection := data\<rparr>))"

text \<open>
  \<^verbatim>\<open>FxDeserializeValue\<close> has specialisations for \<^verbatim>\<open>int32*\<close> and \<^verbatim>\<open>float32*\<close> and the overload for
  structs, which calls \<^verbatim>\<open>ReadFrom(0, writer)\<close> and drops nothing but the output; for every other
  type (\<^verbatim>\<open>std::string\<close> among them) the unspecialised template prints that the type is not
  deserializable and reads nothing.
\<close>

fun FxDeserializeValue :: "cpp_value \<Rightarrow> FxSerializerIO \<Rightarrow> fault + (cpp_value \<times> FxSerializerIO)"
and ReadFrom :: "FxHash \<Rightarrow> cpp_value \<Rightarrow> FxSerializerIO
    \<Rightarrow> fault + (read_status \<times> cpp_value \<times> FxSerializerIO)"
and FxDeserializeValue_pack :: "cpp_value list \<Rightarrow> FxSerializerIO
    \<Rightarrow> fault + (cpp_value list \<times> FxSerializerIO)" where
  "FxDeserializeValue (V_int32 x) writer =
     then_do (on_data_read Read32 writer) (\<lambda>(w, writer1). Inr (V_int32 w, writer1))"
| "FxDeserializeValue (V_float32 x) writer =
     then_do (on_data_read Read32 writer) (\<lambda>(w, writer1).
       Inr (V_float32 (uint32_to_float32 w), writer1))"
| "FxDeserializeValue (V_string x) writer = Inr (V_string x, writer)"
| "FxDeserializeValue (V_bool x) writer = Inr (V_bool x, writer)"
| "FxDeserializeValue (V_struct name sz members) writer =
     then_do (ReadFrom 0 (V_struct name sz members) writer) (\<lambda>(status, dest, writer1).
       Inr (dest, writer1))"
| "ReadFrom name_hash (V_struct name sz members) writer =
     then_do (on_data_read Read8 writer) (\<lambda>(temp, writer1).
       if temp \<noteq> DataIdentHeader then Inr (HeaderIncorrect, V_struct name sz members, writer1)
       else
     then_do (on_data_read Read16 writer1) (\<lambda>(type_id, writer2).
     then_do (on_data_read Read32 writer2) (\<lambda>(struct_hash, writer3).
       if struct_hash \<noteq> 0 \<and> struct_hash \<noteq> name_hash
       then Inr (NameHashesNotEqual, V_struct name sz members, writer3)
       else
     then_do (FxDeserializeValue_pack members writer3) (\<lambda>(members', writer4).
     then_do (on_data_read Read8 writer4) (\<lambda>(temp', writer5).
       if temp' \<noteq> DataIdentFooter then Inr (FooterIncorrect, V_struct name sz members', writer5)
       else Inr (ReadDone, V_struct name sz members', writer5))))))"
| "ReadFrom name_hash (V_int32 x) writer = Inr (ReadDone, V_int32 x, writer)"
| "ReadFrom name_hash (V_float32 x) writer = Inr (ReadDone, V_float32 x, writer)"
| "ReadFrom name_hash (V_string x) writer = Inr (ReadDone, V_string x, writer)"
| "ReadFrom name_hash (V_bool x) writer = Inr (ReadDone, V_bool x, writer)"
| "FxDeserializeValue_pack [] writer = Inr ([], writer)"
| "FxDeserializeValue_pack (v # vs) writer =
     then_do (FxDeserializeValue v writer) (\<lambda>(v', writer1).
     then_do (FxDeserializeValue_pack vs writer1) (\<lambda>(vs', writer2).
       Inr (v' # vs', writer2)))"

section \<open>Evaluating the model on concrete inputs\<close>

text \<open>
  With this congruence rule the simplifier evaluates the first operand of \<open>then_do\<close> before it
  looks at the continuation, as the program does.
\<close>

lemma then_do_weak_cong: "m = m' \<Longrightarrow> then_do m f = then_do m' f"
  by simp

lemmas section_evals =
  Create_def Write8_def Write16_def Write32_def WriteBuffer_def store_inc_def
  Read8_def Read16_def Read32_def load_inc_def in_block_def
  TypeIdentHeader_def TypeIdentFooter_def DataIdentHeader_def DataIdentFooter_def
  WriteHeader_def WriteFooter_def on_data_def on_data_read_def

lemmas archive_evals =
  FxSerializeUtil_start_def FxSerializerIO_new_def
  FxSerializerBaseSection.extend_def FxSerializerTypeSection.fields_def
  GetTypeId_def WriteTypeWithoutChecks_def IsTypePreviouslyWritten_def
  float32_to_uint32_def truncate_rat_def

section \<open>Claims about reading a record\<close>

text \<open>An archive whose data section holds one record of a struct with one \<^verbatim>\<open>int32\<close> member.\<close>

definition one_record :: "FxHash \<Rightarrow> FxSerializerIO" where
  "one_record stored_hash =
     \<lparr>TypeSection = FxSerializerBaseSection.extend (Create 0 [])
                       (FxSerializerTypeSection.fields []),
      DataSection = Create 12 ([0x0B, 0, 1] @ [0, 0, 0, ucast stored_hash] @ [0, 0, 0, 5] @ [0xB0])\<rparr>"

text \<open>
  Claim C2, as the code has it. The check is \<^verbatim>\<open>if (struct_hash && struct_hash != name_hash)\<close>,
  where \<^verbatim>\<open>struct_hash\<close> is the hash stored in the record. Once the header marker has been
  accepted: a stored hash that is neither zero nor the requested hash makes the read print
  the name-mismatch message and return with the destination as it was; a stored hash of zero
  (or one equal to the requested hash) never does, whatever hash is requested.
\<close>

theorem ReadFrom_name_hash_check:
  assumes "on_data_read Read8 writer = Inr (DataIdentHeader, writer1)"
    and "on_data_read Read16 writer1 = Inr (type_id, writer2)"
    and "on_data_read Read32 writer2 = Inr (struct_hash, writer3)"
  shows "(struct_hash \<noteq> 0 \<and> struct_hash \<noteq> name_hash \<longrightarrow>
            ReadFrom name_hash (V_struct name sz members) writer
              = Inr (NameHashesNotEqual, V_struct name sz members, writer3))
     \<and> (struct_hash = 0 \<or> struct_hash = name_hash \<longrightarrow>
            (\<forall>status dest writer'.
               ReadFrom name_hash (V_struct name sz members) writer = Inr (status, dest, writer')
               \<longrightarrow> status \<noteq> NameHashesNotEqual))"
  using assms by (auto simp: then_do_eq_Inr split: if_splits)

theorem ReadFrom_name_hash_check_witness:
  "ReadFrom 8 (V_struct ''S'' 8 [V_int32 0]) (one_record 7)
     = Inr (NameHashesNotEqual, V_struct ''S'' 8 [V_int32 0],
            (one_record 7)\<lparr>DataSection := (DataSection (one_record 7))\<lparr>Index := 7\<rparr>\<rparr>)
   \<and> ReadFrom 8 (V_struct ''S'' 8 [V_int32 0]) (one_record 0)
     = Inr (ReadDone, V_struct ''S'' 8 [V_int32 5],
            (one_record 0)\<lparr>DataSection := (DataSection (one_record 0))\<lparr>Index := 12\<rparr>\<rparr>)"
proof -
  have a: "on_data_read Read8 (one_record 7)
      = Inr (DataIdentHeader, (one_record 7)\<lparr>DataSection := (DataSection (one_record 7))\<lparr>Index := 1\<rparr>\<rparr>)"
    by (simp add: one_record_def section_evals)
  have b: "on_data_read Read16 ((one_record 7)\<lparr>DataSection := (DataSection (one_record 7))\<lparr>Index := 1\<rparr>\<rparr>)
      = Inr (1, (one_record 7)\<lparr>DataSection := (DataSection (one_record 7))\<lparr>Index := 3\<rparr>\<rparr>)"
    by (simp add: one_record_def section_evals)
  have c: "on_data_read Read32 ((one_record 7)\<lparr>DataSection := (DataSection (one_record 7))\<lparr>Index := 3\<rparr>\<rparr>)
      = Inr (7, (one_record 7)\<lparr>DataSection := (DataSection (one_record 7))\<lparr>Index := 7\<rparr>\<rparr>)"
    by (simp add: one_record_def section_evals)
  have d: "ReadFrom 8 (V_struct ''S'' 8 [V_int32 0]) (one_record 0)
     = Inr (ReadDone, V_struct ''S'' 8 [V_int32 5],
            (one_record 0)\<lparr>DataSection := (DataSection (one_record 0))\<lparr>Index := 12\<rparr>\<rparr>)"
    by (simp add: one_record_def section_evals cong: then_do_weak_cong)
  from ReadFrom_name_hash_check [OF a b c, of 8 "''S''" 8 "[V_int32 0]"] d
  show ?thesis by simp
qed

text \<open>
  Claim C2 as stated does not hold: it is the stored hash, not the requested one, whose zero
  disables the check. A record stored under hash 7 and read with the requested hash 0 is
  refused, and a record stored under hash 0 is accepted when the non-zero hash 8 is requested.
\<close>

theorem ReadFrom_requested_zero_counterexample:
  "ReadFrom 0 (V_struct ''S'' 8 [V_int32 0]) (one_record 7)
     = Inr (NameHashesNotEqual, V_struct ''S'' 8 [V_int32 0],
            (one_record 7)\<lparr>DataSection := (DataSection (one_record 7))\<lparr>Index := 7\<rparr>\<rparr>)
   \<and> ReadFrom 8 (V_struct ''S'' 8 [V_int32 0]) (one_record 0)
     = Inr (ReadDone, V_struct ''S'' 8 [V_int32 5],
            (one_record 0)\<lparr>DataSection := (DataSection (one_record 0))\<lparr>Index := 12\<rparr>\<rparr>)"
  by (simp add: one_record_def section_evals cong: then_do_weak_cong)

section \<open>What the write functions store\<close>

text \<open>Big-endian byte sequences, as \<^verbatim>\<open>Write16\<close> and \<^verbatim>\<open>Write32\<close> produce them.\<close>

definition be16 :: "uint16 \<Rightarrow> uint8 list" where
  "be16 v = [ucast (drop_bit 8 v), ucast v]"

definition be32 :: "uint32 \<Rightarrow> uint8 list" where
  "be32 v = be16 (ucast (drop_bit 16 v)) @ be16 (ucast v)"

text \<open>
  \<open>wrote s bs s'\<close>: the section \<open>s'\<close> is \<open>s\<close> with the bytes \<open>bs\<close> stored at the cursor, inside the
  block, and the cursor moved past them.
\<close>

definition wrote :: "'a FxSerializerBaseSection_scheme \<Rightarrow> uint8 list
    \<Rightarrow> 'a FxSerializerBaseSection_scheme \<Rightarrow> bool" where
  "wrote s bs s' \<longleftrightarrow>
     s' = s\<lparr>Data := take (unat (Index s)) (Data s) @ bs
                      @ drop (unat (Index s) + length bs) (Data s),
            Index := Index s + of_nat (length bs)\<rparr>
     \<and> (bs \<noteq> [] \<longrightarrow> unat (Index s) + length bs \<le> unat (Size s)
                    \<and> unat (Index s) + length bs \<le> length (Data s))"

lemma wrote_Nil [simp]: "wrote s [] s"
  by (simp add: wrote_def)

lemma unat_add_of_nat:
  fixes w sz :: uint32
  assumes "unat w + n \<le> unat sz"
  shows "unat (w + of_nat n) = unat w + n"
proof -
  have lt: "unat sz < 2 ^ LENGTH(32)" by (rule unsigned_less)
  have n: "unat (of_nat n :: uint32) = n"
    by (rule of_nat_inverse [OF refl]) (use assms lt in simp)
  have "unat w + unat (of_nat n :: uint32) < 2 ^ LENGTH(32)"
    using assms lt n by simp
  then have "unat (w + of_nat n) = unat w + unat (of_nat n :: uint32)"
    by (simp only: unat_add_lem)
  then show ?thesis by (simp only: n)
qed

lemma wrote_same:
  assumes "wrote s bs s'"
  shows "Size s' = Size s" and "length (Data s') = length (Data s)"
    and "FxSerializerBaseSection.more s' = FxSerializerBaseSection.more s"
    and "bs \<noteq> [] \<Longrightarrow> unat (Index s') = unat (Index s) + length bs"
    and "unat (Index s) \<le> unat (Index s')"
proof -
  from assms have e: "s' = s\<lparr>Data := take (unat (Index s)) (Data s) @ bs
                      @ drop (unat (Index s) + length bs) (Data s),
            Index := Index s + of_nat (length bs)\<rparr>"
    and b: "bs \<noteq> [] \<longrightarrow> unat (Index s) + length bs \<le> unat (Size s)
                    \<and> unat (Index s) + length bs \<le> length (Data s)"
    by (simp_all add: wrote_def)
  show "Size s' = Size s" by (subst e) simp
  show "FxSerializerBaseSection.more s' = FxSerializerBaseSection.more s" by (subst e) simp
  have i: "Index s' = Index s + of_nat (length bs)" by (subst e) simp
  have d: "Data s' = take (unat (Index s)) (Data s) @ bs
                      @ drop (unat (Index s) + length bs) (Data s)" by (subst e) simp
  show n: "unat (Index s') = unat (Index s) + length bs" if "bs \<noteq> []"
    using that b i unat_add_of_nat [of "Index s" "length bs" "Size s"] by simp
  show "unat (Index s) \<le> unat (Index s')"
  proof (cases "bs = []")
    case True
    then show ?thesis using i by simp
  next
    case False
    then show ?thesis using n by simp
  qed
  show "length (Data s') = length (Data s)"
  proof (cases "bs = []")
    case True
    then show ?thesis using d by simp
  next
    case False
    with b have "unat (Index s) + length bs \<le> length (Data s)" by simp
    then show ?thesis using d by simp
  qed
qed

lemma wrote_append:
  assumes "wrote s a s1" and "wrote s1 b s2"
  shows "wrote s (a @ b) s2"
proof (cases "a = [] \<or> b = []")
  case True
  then show ?thesis
  proof
    assume "a = []"
    with assms(1) have "s1 = s" by (simp add: wrote_def)
    with assms(2) \<open>a = []\<close> show ?thesis by simp
  next
    assume "b = []"
    with assms(2) have "s2 = s1" by (simp add: wrote_def)
    with assms(1) \<open>b = []\<close> show ?thesis by simp
  qed
next
  case False
  then have a: "a \<noteq> []" and b: "b \<noteq> []" by simp_all
  let ?i = "unat (Index s)"
  note s1 = wrote_same [OF assms(1)]
  have i1: "unat (Index s1) = ?i + length a" using s1(4) a by simp
  have ba: "?i + length a \<le> length (Data s)" "?i + length a \<le> unat (Size s)"
    using assms(1) a by (simp_all add: wrote_def)
  have bb: "?i + length a + length b \<le> length (Data s)" "?i + length a + length b \<le> unat (Size s)"
    using assms(2) b i1 s1(1,2) by (simp_all add: wrote_def)
  have e1: "s1 = s\<lparr>Data := take ?i (Data s) @ a @ drop (?i + length a) (Data s),
            Index := Index s + of_nat (length a)\<rparr>"
    using assms(1) by (simp add: wrote_def)
  have d1: "Data s1 = take ?i (Data s) @ a @ drop (?i + length a) (Data s)"
    by (subst e1) simp
  have x1: "Index s1 = Index s + of_nat (length a)" by (subst e1) simp
  note s2 = wrote_same [OF assms(2)]
  have e2: "s2 = s1\<lparr>Data := take (unat (Index s1)) (Data s1) @ b
                      @ drop (unat (Index s1) + length b) (Data s1),
            Index := Index s1 + of_nat (length b)\<rparr>"
    using assms(2) by (simp add: wrote_def)
  have d2: "Data s2 = take (unat (Index s1)) (Data s1) @ b
                      @ drop (unat (Index s1) + length b) (Data s1)"
    by (subst e2) simp
  have x2: "Index s2 = Index s1 + of_nat (length b)" by (subst e2) simp
  have t: "take (?i + length a) (Data s1) = take ?i (Data s) @ a"
    using ba(1) by (simp add: d1)
  have d: "drop (?i + length a + length b) (Data s1) = drop (?i + length a + length b) (Data s)"
    using bb(1) by (simp add: d1 add.commute add.left_commute)
  have "Data s2 = take ?i (Data s) @ (a @ b) @ drop (?i + length (a @ b)) (Data s)"
    by (simp add: d2 i1 t d add.assoc [symmetric])
  moreover have "Index s2 = Index s + of_nat (length (a @ b))"
    by (simp add: x2 x1 add.assoc)
  ultimately have "s2 = s\<lparr>Data := take ?i (Data s) @ (a @ b) @ drop (?i + length (a @ b)) (Data s),
            Index := Index s + of_nat (length (a @ b))\<rparr>"
    using s1(1,3) s2(1,3) by (intro FxSerializerBaseSection.equality) simp_all
  then show ?thesis using bb by (simp add: wrote_def add.assoc)
qed

lemma store_inc_wrote:
  assumes "store_inc b s = Inr s'"
  shows "wrote s [b] s'"
proof -
  from assms have ib: "in_block s"
    and e: "s' = s\<lparr>Data := (Data s)[unat (Index s) := b], Index := Index s + 1\<rparr>"
    by (auto simp: store_inc_def split: if_splits)
  from ib have lt: "unat (Index s) < unat (Size s)" "unat (Index s) < length (Data s)"
    by (simp_all add: in_block_def word_less_nat_alt)
  have "(Data s)[unat (Index s) := b]
      = take (unat (Index s)) (Data s) @ [b] @ drop (unat (Index s) + 1) (Data s)"
    using lt(2) by (simp add: upd_conv_take_nth_drop)
  then show ?thesis using e lt by (simp add: wrote_def)
qed

lemma Write8_wrote: "Write8 b s = Inr s' \<Longrightarrow> wrote s [b] s'"
  by (auto simp: Write8_def split: if_splits intro: store_inc_wrote)

lemma Write16_wrote:
  assumes "Write16 v s = Inr s'"
  shows "wrote s (be16 v) s'"
proof -
  from assms obtain s1 where "store_inc (ucast (drop_bit 8 v)) s = Inr s1"
    and "store_inc (ucast v) s1 = Inr s'"
    by (auto simp: Write16_def then_do_eq_Inr split: if_splits)
  then have "wrote s ([ucast (drop_bit 8 v)] @ [ucast v]) s'"
    by (intro wrote_append [of s _ s1] store_inc_wrote)
  then show ?thesis by (simp add: be16_def)
qed

lemma Write32_wrote:
  assumes "Write32 v s = Inr s'"
  shows "wrote s (be32 v) s'"
proof -
  from assms obtain s1 where "Write16 (ucast (drop_bit 16 v)) s = Inr s1"
    and "Write16 (ucast v) s1 = Inr s'"
    by (auto simp: Write32_def then_do_eq_Inr)
  then show ?thesis
    unfolding be32_def by (intro wrote_append [of s _ s1] Write16_wrote)
qed

lemma WriteBuffer_wrote:
  assumes "WriteBuffer sz data s = Inr s'"
  shows "wrote s (take (unat sz) data) s'"
proof -
  from assms have b: "unat sz \<le> length data" "unat (Index s) + unat sz \<le> unat (Size s)"
    "unat (Index s) + unat sz \<le> length (Data s)"
    and e: "s' = s\<lparr>Data := take (unat (Index s)) (Data s) @ take (unat sz) data
                                  @ drop (unat (Index s) + unat sz) (Data s),
                        Index := Index s + sz\<rparr>"
    by (auto simp: WriteBuffer_def split: if_splits)
  have "length (take (unat sz) data) = unat sz" using b(1) by simp
  then show ?thesis using b e by (simp add: wrote_def)
qed

lemma WriteHeader_wrote:
  assumes "WriteHeader type_id name_hash s = Inr s'"
  shows "wrote s ([DataIdentHeader] @ be16 type_id @ be32 name_hash) s'"
proof -
  from assms obtain s1 s2 where "Write8 DataIdentHeader s = Inr s1"
    and "Write16 type_id s1 = Inr s2" and "Write32 name_hash s2 = Inr s'"
    by (auto simp: WriteHeader_def then_do_eq_Inr)
  then show ?thesis
    by (intro wrote_append [of s _ s1] wrote_append [of s1 _ s2]
        Write8_wrote Write16_wrote Write32_wrote)
qed

lemma on_data_Inr:
  "on_data f (u, writer) = Inr st' \<longleftrightarrow>
     (\<exists>data. f (DataSection writer) = Inr data \<and> st' = (u, writer\<lparr>DataSection := data\<rparr>))"
  by (auto simp: on_data_def then_do_eq_Inr)

lemma ucast_of_nat_16: "(ucast (of_nat n :: uint32) :: uint16) = of_nat n"
  by (rule bit_word_eqI) (auto simp: bit_simps)

lemma unat_of_nat_16: "unat (of_nat n :: uint16) = n mod 65536"
  by (simp add: unat_of_nat)

section \<open>Claim about the length field of a string\<close>

text \<open>
  Claim C9, as the code has it. \<^verbatim>\<open>str_size\<close> is a \<^verbatim>\<open>uint32\<close>, \<^verbatim>\<open>Write16\<close> takes its low 16 bits, and
  \<^verbatim>\<open>WriteBuffer\<close> copies \<^verbatim>\<open>str_size\<close> bytes. For a string of fewer than \<open>2\<^sup>3\<^sup>2\<close> bytes, whenever the
  write returns it has stored the two bytes of the length modulo \<open>2\<^sup>1\<^sup>6\<close> followed by all bytes
  of the string; the length field is the number of bytes stored after it exactly when the string
  has at most 65535 bytes.
\<close>

theorem FxSerializeValue_string_length_field:
  assumes "length x < 2 ^ 32"
    and "FxSerializeValue (V_string x) (u, writer) = Inr (u', writer')"
  shows "wrote (DataSection writer) (be16 (of_nat (length x)) @ x) (DataSection writer')
     \<and> unat (of_nat (length x) :: uint16) = length x mod 65536
     \<and> (length x \<le> 65535 \<longrightarrow> unat (of_nat (length x) :: uint16) = length x)
     \<and> (65535 < length x \<longrightarrow> unat (of_nat (length x) :: uint16) \<noteq> length x)
     \<and> u' = u \<and> TypeSection writer' = TypeSection writer"
proof -
  let ?n = "of_nat (length x) :: uint32"
  from assms(2) obtain d1 d2 where w1: "Write16 (ucast ?n) (DataSection writer) = Inr d1"
    and w2: "WriteBuffer ?n x d1 = Inr d2"
    and e: "u' = u" "writer' = writer\<lparr>DataSection := d2\<rparr>"
    by (auto simp: Let_def then_do_eq_Inr on_data_Inr)
  have n: "unat ?n = length x"
    by (rule of_nat_inverse [OF refl]) (use assms(1) in simp)
  have "wrote (DataSection writer) (be16 (ucast ?n) @ take (unat ?n) x) d2"
    using w1 w2 by (intro wrote_append [of _ _ d1] Write16_wrote WriteBuffer_wrote)
  then have "wrote (DataSection writer) (be16 (of_nat (length x)) @ x) (DataSection writer')"
    using e(2) by (simp add: n ucast_of_nat_16)
  moreover have "length x mod 65536 \<noteq> length x" if "65535 < length x"
    using that by (simp add: mod_less_divisor less_le_trans [OF _ less_imp_le] )
  ultimately show ?thesis
    using e by (simp add: unat_of_nat_16)
qed

theorem FxSerializeValue_string_length_field_witness:
  "FxSerializeValue (V_string [104, 105])
      (FxSerializeUtil_start, FxSerializerIO_new 6 [] [9, 9, 9, 9, 9, 9])
     = Inr (FxSerializeUtil_start,
            (FxSerializerIO_new 6 [] [9, 9, 9, 9, 9, 9])
              \<lparr>DataSection := \<lparr>Data = [0, 2, 104, 105, 9, 9], Index = 4, Size = 6\<rparr>\<rparr>)
   \<and> wrote (Create 6 [9, 9, 9, 9, 9, 9]) (be16 2 @ [104, 105])
        \<lparr>Data = [0, 2, 104, 105, 9, 9], Index = 4, Size = 6\<rparr>
   \<and> unat (2 :: uint16) = 2"
proof -
  have e: "FxSerializeValue (V_string [104, 105])
      (FxSerializeUtil_start, FxSerializerIO_new 6 [] [9, 9, 9, 9, 9, 9])
     = Inr (FxSerializeUtil_start,
            (FxSerializerIO_new 6 [] [9, 9, 9, 9, 9, 9])
              \<lparr>DataSection := \<lparr>Data = [0, 2, 104, 105, 9, 9], Index = 4, Size = 6\<rparr>\<rparr>)"
    by (simp add: section_evals archive_evals cong: then_do_weak_cong)
  have l: "length [104, 105 :: uint8] < 2 ^ 32" by simp
  from FxSerializeValue_string_length_field [OF l e] e
  show ?thesis by (simp add: FxSerializerIO_new_def)
qed

text \<open>
  Claim C9 as stated does not hold for every string: \<^verbatim>\<open>value.size()\<close> is first narrowed to the
  \<^verbatim>\<open>uint32 str_size\<close>. A string of \<open>2\<^sup>3\<^sup>2 + 1\<close> bytes is written as the length field 1 followed by
  one byte: not all of its bytes are written, and although it is longer than 65535 bytes the
  length field equals the number of bytes that follow it.
\<close>

theorem FxSerializeValue_string_counterexample:
  "FxSerializeValue (V_string (replicate 4294967297 7))
      (FxSerializeUtil_start, FxSerializerIO_new 4 [] [9, 9, 9, 9])
     = Inr (FxSerializeUtil_start,
            (FxSerializerIO_new 4 [] [9, 9, 9, 9])
              \<lparr>DataSection := \<lparr>Data = [0, 1, 7, 9], Index = 3, Size = 4\<rparr>\<rparr>)"
  by (simp add: section_evals archive_evals cong: then_do_weak_cong)

section \<open>Files (\<^verbatim>\<open>WriteToFile\<close>, \<^verbatim>\<open>ReadFromFile\<close>)\<close>

text \<open>
  A file is its sequence of bytes; a file that cannot be opened is \<open>None\<close>. The signatures are
  the multi-character constants \<^verbatim>\<open>'FXSD'\<close> and \<^verbatim>\<open>'.DAT'\<close>, taken with the value the common compilers
  give them; \<^verbatim>\<open>fwrite\<close> and \<^verbatim>\<open>fread\<close> move a \<^verbatim>\<open>uint32\<close> in the byte order of the machine, taken to
  be little-endian.
\<close>

definition FX_SERIALIZER_IO_FILE_SIGNATURE :: uint32 where
  "FX_SERIALIZER_IO_FILE_SIGNATURE = 0x46585344"

definition FX_SERIALIZER_IO_SECTION_DATA_SIGNATURE :: uint32 where
  "FX_SERIALIZER_IO_SECTION_DATA_SIGNATURE = 0x2E444154"

definition uint32_bytes :: "uint32 \<Rightarrow> uint8 list" where
  "uint32_bytes v = [ucast v, ucast (drop_bit 8 v), ucast (drop_bit 16 v), ucast (drop_bit 24 v)]"

definition bytes_uint32 :: "uint8 list \<Rightarrow> uint32" where
  "bytes_uint32 bs = ucast (bs ! 0) OR push_bit 8 (ucast (bs ! 1))
     OR push_bit 16 (ucast (bs ! 2)) OR push_bit 24 (ucast (bs ! 3))"

text \<open>
  \<^verbatim>\<open>fread(&x, sizeof(uint32), 1, fp)\<close>: the bytes that the file still has, four at most, replace
  the first bytes of \<open>x\<close>; \<open>x\<close> keeps the rest of what it held before.
\<close>

definition fread_uint32 :: "uint32 \<Rightarrow> uint8 list \<Rightarrow> uint32 \<times> uint8 list" where
  "fread_uint32 x file =
     (bytes_uint32 (take 4 file @ drop (length (take 4 file)) (uint32_bytes x)), drop 4 file)"

text \<open>
  \<^verbatim>\<open>fread(Data, 1, count, fp)\<close> stores the bytes that the file still has, \<open>count\<close> at most, from
  the start of \<^verbatim>\<open>Data\<close>. Nothing compares their number with \<^verbatim>\<open>Size\<close>.
\<close>

definition fread_Data :: "uint32 \<Rightarrow> uint8 list \<Rightarrow> 'a FxSerializerBaseSection_scheme
    \<Rightarrow> fault + ('a FxSerializerBaseSection_scheme \<times> uint8 list)" where
  "fread_Data count file s =
     (let n = min (unat count) (length file) in
      if n \<le> unat (Size s) \<and> n \<le> length (Data s)
      then Inr (s\<lparr>Data := take n file @ drop n (Data s)\<rparr>, drop n file)
      else Inl OutOfBounds)"

datatype load_status =
  Loaded | CouldNotOpenFile | FileSignatureIncorrect | FileDataSignatureIncorrect

text \<open>
  \<^verbatim>\<open>size_of_types\<close> and \<^verbatim>\<open>size_of_data\<close> are not initialised before \<^verbatim>\<open>fread\<close> fills them; what they
  hold before is given by \<open>garbage_t\<close> and \<open>garbage_d\<close>.
\<close>

definition ReadFromFile :: "uint8 list option \<Rightarrow> uint32 \<Rightarrow> uint32 \<Rightarrow> FxSerializerIO
    \<Rightarrow> fault + (load_status \<times> FxSerializerIO)" where
  "ReadFromFile fp garbage_t garbage_d io =
     (case fp of
        None \<Rightarrow> Inr (CouldNotOpenFile, io)
      | Some file \<Rightarrow>
          (let (signature_buffer, file1) = fread_uint32 0 file in
           if signature_buffer \<noteq> FX_SERIALIZER_IO_FILE_SIGNATURE
           then Inr (FileSignatureIncorrect, io)
           else
             (let (size_of_types, file2) = fread_uint32 garbage_t file1 in
              then_do (fread_Data size_of_types file2 (TypeSection io)) (\<lambda>(types, file3).
                let io1 = io\<lparr>TypeSection := types\<rparr>;
                    (signature_buffer, file4) = fread_uint32 0 file3 in
                if signature_buffer \<noteq> FX_SERIALIZER_IO_SECTION_DATA_SIGNATURE
                then Inr (FileDataSignatureIncorrect, io1)
                else
                  (let (size_of_data, file5) = fread_uint32 garbage_d file4 in
                   then_do (fread_Data size_of_data file5 (DataSection io1)) (\<lambda>(data, file6).
                     Inr (Loaded, io1\<lparr>DataSection := data\<rparr>)))))))"

text \<open>
  \<^verbatim>\<open>WriteToFile\<close>: \<^verbatim>\<open>fwrite(Data, 1, Index, fp)\<close> reads \<^verbatim>\<open>Index\<close> bytes from the block. The result is
  the content of the file.
\<close>

definition fwrite_Data :: "'a FxSerializerBaseSection_scheme \<Rightarrow> fault + uint8 list" where
  "fwrite_Data s =
     (if unat (Index s) \<le> unat (Size s) \<and> unat (Index s) \<le> length (Data s)
      then Inr (take (unat (Index s)) (Data s))
      else Inl OutOfBounds)"

definition WriteToFile :: "FxSerializerIO \<Rightarrow> fault + uint8 list" where
  "WriteToFile io =
     then_do (fwrite_Data (TypeSection io)) (\<lambda>types.
     then_do (fwrite_Data (DataSection io)) (\<lambda>data.
       Inr (uint32_bytes FX_SERIALIZER_IO_FILE_SIGNATURE @ uint32_bytes (Index (TypeSection io))
            @ types
            @ uint32_bytes FX_SERIALIZER_IO_SECTION_DATA_SIGNATURE
            @ uint32_bytes (Index (DataSection io)) @ data)))"

lemmas file_evals =
  FX_SERIALIZER_IO_FILE_SIGNATURE_def FX_SERIALIZER_IO_SECTION_DATA_SIGNATURE_def
  uint32_bytes_def bytes_uint32_def fread_uint32_def fread_Data_def ReadFromFile_def
  fwrite_Data_def WriteToFile_def

subsection \<open>Example files\<close>


definition file_long_types :: "uint8 list" where
  "file_long_types =
     [0x44, 0x53, 0x58, 0x46] @ [8, 0, 0, 0] @ [1, 2, 3, 4, 5, 6, 7, 8]
     @ [0x54, 0x41, 0x44, 0x2E] @ [0, 0, 0, 0]"

lemma replicate_numeral: "replicate (numeral k) x = x # replicate (pred_numeral k) x"
  by (simp add: numeral_eq_Suc)

section \<open>Claims about loading a file\<close>




text \<open>
  Claim C6 at a file whose declared type-section length (8) exceeds the capacity (4) of the
  archive it is loaded into: the write functions stop at their \<^verbatim>\<open>assert\<close>, but \<^verbatim>\<open>ReadFromFile\<close>
  copies the eight bytes over the four-byte block without any check.
\<close>

theorem ReadFromFile_exceeds_capacity:
  "ReadFromFile (Some file_long_types) 0 0 (FxSerializerIO_new 4 [] []) = Inl OutOfBounds
   \<and> Write8 1 ((Create 4 [])\<lparr>Index := 4\<rparr>) = Inl AssertionFailed
   \<and> Write16 1 ((Create 4 [])\<lparr>Index := 3\<rparr>) = Inl AssertionFailed
   \<and> Write32 1 ((Create 4 [])\<lparr>Index := 1\<rparr>) = Inl AssertionFailed
   \<and> WriteBuffer 8 [1, 2, 3, 4, 5, 6, 7, 8] (Create 4 []) = Inl AssertionFailed"
  by (simp add: file_long_types_def file_evals section_evals archive_evals
      replicate_numeral cong: then_do_weak_cong)

section \<open>Properties kept by the writing of types\<close>

text \<open>Ids are never taken back: what the registry has assigned stays.\<close>

definition ids_kept :: "'ty FxSerializeUtil \<Rightarrow> 'ty FxSerializeUtil \<Rightarrow> bool" where
  "ids_kept u u' \<longleftrightarrow> (\<forall>T t. tid u T = Some t \<longrightarrow> tid u' T = Some t)"

lemma ids_kept_refl [simp]: "ids_kept u u"
  by (simp add: ids_kept_def)

lemma ids_kept_trans: "ids_kept u u1 \<Longrightarrow> ids_kept u1 u2 \<Longrightarrow> ids_kept u u2"
  by (simp add: ids_kept_def)

lemma GetTypeId_kept: "ids_kept u (snd (GetTypeId T u))"
  by (auto simp: GetTypeId_def Let_def ids_kept_def split: option.splits)

lemma GetTypeId_assigned: "tid (snd (GetTypeId T u)) T = Some (fst (GetTypeId T u))"
  by (auto simp: GetTypeId_def Let_def split: option.splits)

lemma GetTypeId_known: "tid u T = Some t \<Longrightarrow> GetTypeId T u = (t, u)"
  by (simp add: GetTypeId_def)

lemma GetTypeId_again [simp]: "GetTypeId T (snd (GetTypeId T u)) = (fst (GetTypeId T u), snd (GetTypeId T u))"
  by (rule GetTypeId_known) (rule GetTypeId_assigned)

text \<open>
  A property of the registry that every \<^verbatim>\<open>GetTypeId\<close> keeps is kept by the construction of an
  object.
\<close>

lemma construct_keeps:
  assumes reg: "\<And>T u. Q u \<Longrightarrow> Q (snd (GetTypeId T u))"
  shows "Q u \<Longrightarrow> Q (construct T u)" and "Q u \<Longrightarrow> Q (construct_members Ts u)"
  by (induction T u and Ts u rule: construct_construct_members.induct) (simp_all add: reg)

lemma write_member_func_pack_keeps:
  assumes reg: "\<And>T u. Q u \<Longrightarrow> Q (snd (GetTypeId T u))"
  shows "write_member_func_pack args (u, ts) = Inr (u', ts') \<Longrightarrow> Q u \<Longrightarrow> Q u'"
proof (induction args arbitrary: u ts)
  case Nil
  then show ?case by simp
next
  case (Cons arg args)
  from Cons.prems(1) obtain ts2 where
    "write_member_func_pack args (snd (GetTypeId arg u), ts2) = Inr (u', ts')"
    by (auto simp: then_do_eq_Inr split: prod.splits)
  then show ?case using Cons.IH Cons.prems(2) reg by blast
qed

text \<open>
  A property of the registry and the archive is kept by \<^verbatim>\<open>WriteTypeForTypeId\<close> and \<^verbatim>\<open>WriteTypeTo\<close>
  when every \<^verbatim>\<open>GetTypeId\<close> and every \<^verbatim>\<open>WriteTypeWithoutChecks\<close> keeps it.
\<close>

lemma WriteType_keeps_aux:
  fixes P :: "cpp_type FxSerializeUtil \<Rightarrow> FxSerializerIO \<Rightarrow> bool"
  assumes reg: "\<And>T u w. P u w \<Longrightarrow> P (snd (GetTypeId T u)) w"
    and wtc: "\<And>type_id type_size args u w u' ts'. P u w \<Longrightarrow>
        WriteTypeWithoutChecks type_id type_size args (u, TypeSection w) = Inr (u', ts') \<Longrightarrow>
        P u' (w\<lparr>TypeSection := ts'\<rparr>)"
  shows "(\<forall>u w u' w'. WriteTypeForTypeId T (u, w) = Inr (u', w') \<longrightarrow> P u w \<longrightarrow> P u' w')
     \<and> (\<forall>u w u' w'. WriteTypeTo T (u, w) = Inr (u', w') \<longrightarrow> P u w \<longrightarrow> P u' w')"
proof -
  have prim: "P u' w'"
    if a: "WriteTypeForTypeId A (u, w) = Inr (u', w')"
      and np: "A = T_int32 \<or> A = T_float32 \<or> A = T_string \<or> A = T_bool"
      and p: "P u w" for A u w u' w'
  proof (cases "IsTypePreviouslyWritten (fst (GetTypeId A u)) (TypeSection w)")
    case True
    with a have "u' = snd (GetTypeId A u)" "w' = w" by (auto split: prod.splits)
    then show ?thesis using reg [OF p] by simp
  next
    case False
    with a np obtain ts where
      "WriteTypeWithoutChecks (fst (GetTypeId A u)) (of_nat (sizeof A)) []
         (snd (GetTypeId A u), TypeSection w) = Inr (u', ts)"
      and "w' = w\<lparr>TypeSection := ts\<rparr>"
      by (auto simp: then_do_eq_Inr split: prod.splits)
    then show ?thesis using wtc reg [OF p] by blast
  qed
  show ?thesis
proof (induction T)
  case (T_struct name sz members)
  have pack: "WriteTypeForTypeId_pack Ts (u, w) = Inr (u', w') \<Longrightarrow> P u w \<Longrightarrow> P u' w'"
    if "set Ts \<subseteq> set members" for Ts u w u' w'
    using that
  proof (induction Ts arbitrary: u w)
    case Nil
    then show ?case by simp
  next
    case (Cons A Ts)
    from Cons.prems(1) obtain u1 w1 where a: "WriteTypeForTypeId A (u, w) = Inr (u1, w1)"
      and r: "WriteTypeForTypeId_pack Ts (u1, w1) = Inr (u', w')"
      by (auto simp: then_do_eq_Inr)
    have "A \<in> set members" using Cons.prems(3) by simp
    then have "P u1 w1" using T_struct a Cons.prems(2) by blast
    then show ?case using Cons.IH [OF r] Cons.prems(3) by simp
  qed
  let ?T = "T_struct name sz members"
  have to: "P u' w'" if a: "WriteTypeTo ?T (u, w) = Inr (u', w')" and p: "P u w" for u w u' w'
  proof (cases "IsTypePreviouslyWritten (fst (GetTypeId ?T u)) (TypeSection w)")
    case True
    with a have "u' = snd (GetTypeId ?T u)" "w' = w" by (auto split: prod.splits)
    then show ?thesis using reg [OF p] by simp
  next
    case False
    with a obtain u2 w2 ts where
      b: "WriteTypeForTypeId_pack members (snd (GetTypeId ?T u), w) = Inr (u2, w2)"
      and c: "WriteTypeWithoutChecks (fst (GetTypeId ?T u)) (of_nat sz) members (u2, TypeSection w2)
          = Inr (u', ts)"
      and d: "w' = w2\<lparr>TypeSection := ts\<rparr>"
      by (auto simp: then_do_eq_Inr split: prod.splits)
    have "P u2 w2" using pack [OF _ b] reg [OF p] by simp
    then show ?thesis using wtc c d by blast
  qed
  have "P u' w'" if a: "WriteTypeForTypeId ?T (u, w) = Inr (u', w')" and p: "P u w" for u w u' w'
  proof (cases "IsTypePreviouslyWritten (fst (GetTypeId ?T u)) (TypeSection w)")
    case True
    with a have "u' = snd (GetTypeId ?T u)" "w' = w" by (auto split: prod.splits)
    then show ?thesis using reg [OF p] by simp
  next
    case False
    with a have b: "WriteTypeTo ?T (construct ?T (snd (GetTypeId ?T u)), w) = Inr (u', w')"
      by (auto split: prod.splits)
    have "P (construct ?T (snd (GetTypeId ?T u))) w"
      by (rule construct_keeps(1) [where Q = "\<lambda>u. P u w"]) (simp_all add: reg p)
    then show ?thesis using to [OF b] by simp
  qed
  with to show ?case by blast
next
  case T_int32
  show ?case using prim [of T_int32] by auto
next
  case T_float32
  show ?case using prim [of T_float32] by auto
next
  case T_string
  show ?case using prim [of T_string] by auto
next
  case T_bool
  show ?case using prim [of T_bool] by auto
qed
qed

lemma WriteTypeTo_keeps:
  fixes P :: "cpp_type FxSerializeUtil \<Rightarrow> FxSerializerIO \<Rightarrow> bool"
  assumes "WriteTypeTo T (u, w) = Inr (u', w')" and "P u w"
    and "\<And>T u w. P u w \<Longrightarrow> P (snd (GetTypeId T u)) w"
    and "\<And>type_id type_size args u w u' ts'. P u w \<Longrightarrow>
        WriteTypeWithoutChecks type_id type_size args (u, TypeSection w) = Inr (u', ts') \<Longrightarrow>
        P u' (w\<lparr>TypeSection := ts'\<rparr>)"
  shows "P u' w'"
proof -
  have "(\<forall>u w u' w'. WriteTypeForTypeId T (u, w) = Inr (u', w') \<longrightarrow> P u w \<longrightarrow> P u' w')
     \<and> (\<forall>u w u' w'. WriteTypeTo T (u, w) = Inr (u', w') \<longrightarrow> P u w \<longrightarrow> P u' w')"
    by (rule WriteType_keeps_aux [where P = P]) (erule assms(3), erule (1) assms(4))
  then show ?thesis using assms(1,2) by blast
qed

lemma WriteTypeTo_DataSection:
  assumes "WriteTypeTo T (u, w) = Inr (u', w')"
  shows "DataSection w' = DataSection w"
  by (rule WriteTypeTo_keeps [where P = "\<lambda>u1 w1. DataSection w1 = DataSection w", OF assms]) simp_all

lemma WriteTypeWithoutChecks_cases:
  fixes ts ts' :: "'a FxSerializerTypeSection_scheme"
  assumes "WriteTypeWithoutChecks type_id type_size args (u, ts) = Inr (u', ts')"
  obtains (written) "IsTypePreviouslyWritten type_id ts" and "u' = u" and "ts' = ts"
  | (new) ts4 ts5 ts6 :: "'a FxSerializerTypeSection_scheme"
      where "\<not> IsTypePreviouslyWritten type_id ts"
      and "wrote ts ([TypeIdentHeader] @ be16 type_id @ be16 type_size @ [of_nat (length args)]) ts4"
      and "write_member_func_pack args (u, ts4) = Inr (u', ts5)"
      and "Write8 TypeIdentFooter ts5 = Inr ts6"
      and "ts' = ts6\<lparr>mRegisteredTypeIds := mRegisteredTypeIds ts6
                  @ [\<lparr>Entry_Id = type_id, Entry_Offset = Index ts\<rparr>]\<rparr>"
proof (cases "IsTypePreviouslyWritten type_id ts")
  case True
  with assms have "u' = u" and "ts' = ts" by (simp_all add: WriteTypeWithoutChecks_def)
  with True show ?thesis by (rule written)
next
  case False
  with assms obtain ts1 ts2 ts3 ts4 ts5 ts6 :: "'a FxSerializerTypeSection_scheme" where
    w: "Write8 TypeIdentHeader ts = Inr ts1" "Write16 type_id ts1 = Inr ts2"
      "Write16 type_size ts2 = Inr ts3" "Write8 (of_nat (length args)) ts3 = Inr ts4"
    and m: "write_member_func_pack args (u, ts4) = Inr (u', ts5)"
    and f: "Write8 TypeIdentFooter ts5 = Inr ts6"
    and e: "ts' = ts6\<lparr>mRegisteredTypeIds := mRegisteredTypeIds ts6
                  @ [\<lparr>Entry_Id = type_id, Entry_Offset = Index ts\<rparr>]\<rparr>"
    by (auto simp: WriteTypeWithoutChecks_def Let_def then_do_eq_Inr)
  have h: "wrote ts ([TypeIdentHeader] @ be16 type_id @ be16 type_size @ [of_nat (length args)]) ts4"
    using w by (intro wrote_append [of ts _ ts1] wrote_append [of ts1 _ ts2]
        wrote_append [of ts2 _ ts3] Write8_wrote Write16_wrote)
  show ?thesis by (rule new [OF False h m f e])
qed

lemma WriteTypeWithoutChecks_kept:
  assumes "WriteTypeWithoutChecks type_id type_size args (u, ts) = Inr (u', ts')"
  shows "ids_kept u u'"
  using assms
proof (cases rule: WriteTypeWithoutChecks_cases)
  case written
  then show ?thesis by simp
next
  case (new ts4 ts5 ts6)
  from new(3) show ?thesis
    by (rule write_member_func_pack_keeps [where Q = "ids_kept u", rotated])
      (auto intro: ids_kept_trans GetTypeId_kept)
qed

lemma WriteTypeTo_kept:
  assumes "WriteTypeTo T (u, w) = Inr (u', w')"
  shows "ids_kept u u'"
  by (rule WriteTypeTo_keeps [where P = "\<lambda>u1 w1. ids_kept u u1", OF assms])
    (auto intro: ids_kept_trans GetTypeId_kept WriteTypeWithoutChecks_kept)

section \<open>The bytes of a record\<close>

text \<open>The id that the registry \<open>u\<close> gives for a type.\<close>

definition id_of :: "cpp_type FxSerializeUtil \<Rightarrow> cpp_type \<Rightarrow> uint16" where
  "id_of u T = fst (GetTypeId T u)"

text \<open>
  The layout of a record as the code produces it: the header marker, the type id and the name
  hash, the members in the order of the macro's list, and the footer marker. A member that is
  itself a struct stands there as a complete record of its own, with name hash 0.
\<close>

fun value_bytes :: "(cpp_type \<Rightarrow> uint16) \<Rightarrow> cpp_value \<Rightarrow> uint8 list"
and record_bytes :: "(cpp_type \<Rightarrow> uint16) \<Rightarrow> FxHash \<Rightarrow> cpp_value \<Rightarrow> uint8 list" where
  "value_bytes ids (V_int32 x) = be32 x"
| "value_bytes ids (V_float32 x) =
     (case float32_to_uint32 x of None \<Rightarrow> [] | Some w \<Rightarrow> be32 w)"
| "value_bytes ids (V_string x) =
     be16 (of_nat (length x)) @ take (unat (of_nat (length x) :: uint32)) x"
| "value_bytes ids (V_bool x) = []"
| "value_bytes ids (V_struct name sz members) = record_bytes ids 0 (V_struct name sz members)"
| "record_bytes ids name_hash (V_struct name sz members) =
     [DataIdentHeader] @ be16 (ids (type_of (V_struct name sz members))) @ be32 name_hash
     @ concat (map (value_bytes ids) members) @ [DataIdentFooter]"
| "record_bytes ids name_hash (V_int32 x) = []"
| "record_bytes ids name_hash (V_float32 x) = []"
| "record_bytes ids name_hash (V_string x) = []"
| "record_bytes ids name_hash (V_bool x) = []"

text \<open>
  The layout that claim C3 describes: only the outermost record has a header and a footer, and
  the members of a nested struct follow one another without any framing.
\<close>

fun inline_bytes :: "cpp_value \<Rightarrow> uint8 list" where
  "inline_bytes (V_struct name sz members) = concat (map inline_bytes members)"
| "inline_bytes (V_int32 x) = be32 x"
| "inline_bytes (V_float32 x) =
     (case float32_to_uint32 x of None \<Rightarrow> [] | Some w \<Rightarrow> be32 w)"
| "inline_bytes (V_string x) =
     be16 (of_nat (length x)) @ take (unat (of_nat (length x) :: uint32)) x"
| "inline_bytes (V_bool x) = []"

fun outermost_framed_bytes :: "(cpp_type \<Rightarrow> uint16) \<Rightarrow> FxHash \<Rightarrow> cpp_value \<Rightarrow> uint8 list" where
  "outermost_framed_bytes ids name_hash (V_struct name sz members) =
     [DataIdentHeader] @ be16 (ids (type_of (V_struct name sz members))) @ be32 name_hash
     @ concat (map inline_bytes members) @ [DataIdentFooter]"
| "outermost_framed_bytes ids name_hash v = []"

text \<open>The struct types that occur in a value all have an id.\<close>

fun structs_registered :: "cpp_type FxSerializeUtil \<Rightarrow> cpp_value \<Rightarrow> bool" where
  "structs_registered u (V_struct name sz members) \<longleftrightarrow>
     tid u (type_of (V_struct name sz members)) \<noteq> None
     \<and> list_all (structs_registered u) members"
| "structs_registered u v \<longleftrightarrow> True"

lemma id_of_known: "tid u T = Some t \<Longrightarrow> id_of u T = t"
  by (simp add: id_of_def GetTypeId_known)

lemma value_bytes_kept:
  assumes "ids_kept u u'"
  shows "structs_registered u v \<Longrightarrow>
     structs_registered u' v \<and> value_bytes (id_of u') v = value_bytes (id_of u) v
       \<and> record_bytes (id_of u') h v = record_bytes (id_of u) h v"
proof (induction v arbitrary: h)
  case (V_struct name sz members)
  let ?T = "type_of (V_struct name sz members)"
  from V_struct.prems obtain t where t: "tid u ?T = Some t"
    and m: "list_all (structs_registered u) members" by auto
  have t': "tid u' ?T = Some t" using assms t by (simp add: ids_kept_def)
  have each: "\<forall>x \<in> set members. structs_registered u' x
      \<and> value_bytes (id_of u') x = value_bytes (id_of u) x"
    using V_struct.IH m by (auto simp: list_all_iff)
  then have regs: "list_all (structs_registered u') members"
    by (simp add: list_all_iff)
  have "map (value_bytes (id_of u')) members = map (value_bytes (id_of u)) members"
    by (rule map_cong) (use each in simp_all)
  then have bytes: "concat (map (value_bytes (id_of u')) members)
      = concat (map (value_bytes (id_of u)) members)"
    by (rule arg_cong)
  have "id_of u' ?T = id_of u ?T"
    using t t' by (simp only: id_of_known)
  then show ?case using t' regs bytes by simp
qed simp_all

section \<open>What \<^verbatim>\<open>WriteTo\<close> stores in the data section\<close>

lemma FxSerializeValue_pack_wrote:
  assumes "\<And>v u w u' w'. v \<in> set vs \<Longrightarrow> FxSerializeValue v (u, w) = Inr (u', w') \<Longrightarrow>
      ids_kept u u' \<and> structs_registered u' v
      \<and> wrote (DataSection w) (value_bytes (id_of u') v) (DataSection w')"
    and "FxSerializeValue_pack vs (u, w) = Inr (u', w')"
  shows "ids_kept u u' \<and> list_all (structs_registered u') vs
      \<and> wrote (DataSection w) (concat (map (value_bytes (id_of u')) vs)) (DataSection w')"
  using assms
proof (induction vs arbitrary: u w)
  case Nil
  then show ?case by simp
next
  case (Cons v vs)
  from Cons.prems(2) obtain u1 w1 where a: "FxSerializeValue v (u, w) = Inr (u1, w1)"
    and r: "FxSerializeValue_pack vs (u1, w1) = Inr (u', w')"
    by (auto simp: then_do_eq_Inr)
  have "ids_kept u u1 \<and> structs_registered u1 v
      \<and> wrote (DataSection w) (value_bytes (id_of u1) v) (DataSection w1)"
    by (rule Cons.prems(1) [OF _ a]) simp
  then have v: "ids_kept u u1" "structs_registered u1 v"
    "wrote (DataSection w) (value_bytes (id_of u1) v) (DataSection w1)"
    by simp_all
  have "ids_kept u1 u' \<and> list_all (structs_registered u') vs
      \<and> wrote (DataSection w1) (concat (map (value_bytes (id_of u')) vs)) (DataSection w')"
  proof (rule Cons.IH [OF _ r])
    fix x ua wa ub wb
    assume "x \<in> set vs" and "FxSerializeValue x (ua, wa) = Inr (ub, wb)"
    then show "ids_kept ua ub \<and> structs_registered ub x
      \<and> wrote (DataSection wa) (value_bytes (id_of ub) x) (DataSection wb)"
      by (intro Cons.prems(1)) simp_all
  qed
  then have vs: "ids_kept u1 u'" "list_all (structs_registered u') vs"
    "wrote (DataSection w1) (concat (map (value_bytes (id_of u')) vs)) (DataSection w')"
    by simp_all
  note k = value_bytes_kept [OF vs(1) v(2)]
  have "wrote (DataSection w) (value_bytes (id_of u') v @ concat (map (value_bytes (id_of u')) vs))
      (DataSection w')"
    using v(3) vs(3) k by (auto intro: wrote_append)
  then show ?case using v(1) vs(1,2) k by (auto intro: ids_kept_trans)
qed

lemma WriteTo_wrote_step:
  assumes members: "\<And>v u w u' w'. v \<in> set members \<Longrightarrow>
      FxSerializeValue v (u, w) = Inr (u', w') \<Longrightarrow>
      ids_kept u u' \<and> structs_registered u' v
      \<and> wrote (DataSection w) (value_bytes (id_of u') v) (DataSection w')"
    and w: "WriteTo name_hash (V_struct name sz members) (u, w) = Inr (u', w')"
  shows "ids_kept u u' \<and> structs_registered u' (V_struct name sz members)
      \<and> wrote (DataSection w) (record_bytes (id_of u') name_hash (V_struct name sz members))
          (DataSection w')"
proof -
  let ?T = "type_of (V_struct name sz members)"
  from w obtain u1 w1 where t: "WriteTypeTo ?T (u, w) = Inr (u1, w1)"
    and s: "FxSerializeStruct (fst (GetTypeId ?T u1)) name_hash members
              (snd (GetTypeId ?T u1), w1) = Inr (u', w')"
    by (auto simp: then_do_eq_Inr split_def Let_def
        simp del: WriteTypeTo.simps FxSerializeStruct.simps)
  let ?id = "fst (GetTypeId ?T u1)" and ?u2 = "snd (GetTypeId ?T u1)"
  from s obtain d1 u3 w3 d4 where
    h: "WriteHeader ?id name_hash (DataSection w1) = Inr d1"
    and p: "FxSerializeValue_pack members (?u2, w1\<lparr>DataSection := d1\<rparr>) = Inr (u3, w3)"
    and f: "WriteFooter (DataSection w3) = Inr d4"
    and e: "u' = u3" "w' = w3\<lparr>DataSection := d4\<rparr>"
    by (auto simp: then_do_eq_Inr on_data_Inr)
  have d: "DataSection w1 = DataSection w" using t by (rule WriteTypeTo_DataSection)
  have k1: "ids_kept u u1" using t by (rule WriteTypeTo_kept)
  have k2: "ids_kept u1 ?u2" by (rule GetTypeId_kept)
  from FxSerializeValue_pack_wrote [OF members p]
  have k3: "ids_kept ?u2 u3" and regs: "list_all (structs_registered u3) members"
    and ms: "wrote d1 (concat (map (value_bytes (id_of u3)) members)) (DataSection w3)"
    by simp_all
  have "tid ?u2 ?T = Some ?id" by (rule GetTypeId_assigned)
  then have id: "tid u3 ?T = Some ?id" using k3 by (simp add: ids_kept_def)
  have hw: "wrote (DataSection w) ([DataIdentHeader] @ be16 ?id @ be32 name_hash) d1"
    using WriteHeader_wrote [OF h] d by simp
  have fw: "wrote (DataSection w3) [DataIdentFooter] d4"
    using f by (simp add: WriteFooter_def Write8_wrote)
  have "wrote (DataSection w) (([DataIdentHeader] @ be16 ?id @ be32 name_hash)
      @ concat (map (value_bytes (id_of u3)) members) @ [DataIdentFooter]) d4"
    by (rule wrote_append [OF hw wrote_append [OF ms fw]])
  moreover have "id_of u3 ?T = ?id" using id by (rule id_of_known)
  ultimately have "wrote (DataSection w) (record_bytes (id_of u') name_hash (V_struct name sz members))
      (DataSection w')"
    using e by simp
  moreover have "ids_kept u u'"
    using k1 k2 k3 e by (blast intro: ids_kept_trans)
  ultimately show ?thesis using id regs e by simp
qed

lemma FxSerializeValue_wrote:
  "FxSerializeValue v (u, w) = Inr (u', w') \<Longrightarrow>
     ids_kept u u' \<and> structs_registered u' v
     \<and> wrote (DataSection w) (value_bytes (id_of u') v) (DataSection w')"
proof (induction v arbitrary: u w u' w')
  case (V_int32 x)
  then show ?case by (auto simp: on_data_Inr intro: Write32_wrote)
next
  case (V_float32 x)
  then show ?case
    by (auto simp: on_data_Inr split: option.splits intro: Write32_wrote)
next
  case (V_string x)
  let ?n = "of_nat (length x) :: uint32"
  from V_string obtain d1 d2 where w1: "Write16 (ucast ?n) (DataSection w) = Inr d1"
    and w2: "WriteBuffer ?n x d1 = Inr d2"
    and e: "u' = u" "w' = w\<lparr>DataSection := d2\<rparr>"
    by (auto simp: Let_def then_do_eq_Inr on_data_Inr)
  have "wrote (DataSection w) (be16 (ucast ?n) @ take (unat ?n) x) d2"
    using w1 w2 by (intro wrote_append [of _ _ d1] Write16_wrote WriteBuffer_wrote)
  then show ?case using e by (simp add: ucast_of_nat_16)
next
  case (V_bool x)
  then show ?case by simp
next
  case (V_struct name sz members)
  from V_struct.prems have "WriteTo 0 (V_struct name sz members) (u, w) = Inr (u', w')"
    by simp
  then have "ids_kept u u' \<and> structs_registered u' (V_struct name sz members)
      \<and> wrote (DataSection w) (record_bytes (id_of u') 0 (V_struct name sz members))
          (DataSection w')"
    by (rule WriteTo_wrote_step [rotated]) (rule V_struct.IH)
  then show ?case by simp
qed

text \<open>The bytes of the data section up to the cursor, as \<^verbatim>\<open>WriteToFile\<close> stores them.\<close>

definition data_written :: "fault + (cpp_type FxSerializeUtil \<times> FxSerializerIO) \<Rightarrow> uint8 list" where
  "data_written r =
     (case r of
        Inl e \<Rightarrow> []
      | Inr (u, writer) \<Rightarrow> take (unat (Index (DataSection writer))) (Data (DataSection writer)))"

text \<open>A struct with an \<^verbatim>\<open>int32\<close> and a nested struct of one \<^verbatim>\<open>int32\<close>.\<close>

definition outer_value :: cpp_value where
  "outer_value = V_struct ''Outer'' 12 [V_int32 1, V_struct ''Inner'' 8 [V_int32 2]]"

section \<open>Claim about the framing of nested structs\<close>

text \<open>
  Claim C3, as the code has it. \<^verbatim>\<open>FxSerializeValue\<close> of a struct member calls the member's
  \<^verbatim>\<open>WriteTo(0, writer)\<close>, which frames it like any record. Whenever \<^verbatim>\<open>WriteTo\<close> returns, it has
  stored at the cursor of the data section: the header (0x0B, the type id, the name hash), the
  members in declared order, and the footer 0xB0; every member that is a struct stands there
  as a record of its own, with its own header (0x0B, its type id, name hash 0) and footer.
\<close>

theorem WriteTo_frames_nested_records:
  assumes "WriteTo name_hash (V_struct name sz members) (u, writer) = Inr (u', writer')"
  shows "wrote (DataSection writer)
           ([DataIdentHeader] @ be16 (id_of u' (type_of (V_struct name sz members)))
            @ be32 name_hash @ concat (map (value_bytes (id_of u')) members) @ [DataIdentFooter])
           (DataSection writer')
     \<and> (\<forall>name' sz' members'. V_struct name' sz' members' \<in> set members \<longrightarrow>
           value_bytes (id_of u') (V_struct name' sz' members')
             = [DataIdentHeader] @ be16 (id_of u' (type_of (V_struct name' sz' members')))
               @ be32 0 @ concat (map (value_bytes (id_of u')) members') @ [DataIdentFooter])"
  using WriteTo_wrote_step [OF FxSerializeValue_wrote assms] by simp

text \<open>The registry and the archive after \<open>outer_value\<close> has been written to a new archive of 40 bytes.\<close>

definition outer_registry :: "cpp_type FxSerializeUtil" where
  "outer_registry =
     \<lparr>SerializeTypeIdCount = 3,
      tid = [T_struct ''Outer'' 12 [T_int32, T_struct ''Inner'' 8 [T_int32]] \<mapsto> 1,
             T_int32 \<mapsto> 2,
             T_struct ''Inner'' 8 [T_int32] \<mapsto> 3]\<rparr>"

definition outer_archive :: FxSerializerIO where
  "outer_archive =
     \<lparr>TypeSection =
        \<lparr>Data = [0xEF, 0, 2, 0, 4, 0, 0xBE,
                 0xEF, 0, 3, 0, 8, 1, 0, 4, 0, 2, 0xBE,
                 0xEF, 0, 1, 0, 12, 2, 0, 4, 0, 2, 0, 8, 0, 3, 0xBE,
                 0, 0, 0, 0, 0, 0, 0],
         Index = 33, Size = 40,
         mRegisteredTypeIds =
           [\<lparr>Entry_Id = 2, Entry_Offset = 0\<rparr>, \<lparr>Entry_Id = 3, Entry_Offset = 7\<rparr>,
            \<lparr>Entry_Id = 1, Entry_Offset = 18\<rparr>]\<rparr>,
      DataSection =
        \<lparr>Data = [0x0B, 0, 1, 0, 0, 0, 7, 0, 0, 0, 1,
                 0x0B, 0, 3, 0, 0, 0, 0, 0, 0, 0, 2, 0xB0, 0xB0,
                 0, 0, 0, 0, 0, 0, 0, 0, 0, 0, 0, 0, 0, 0, 0, 0],
         Index = 24, Size = 40\<rparr>\<rparr>"

lemma WriteTo_outer_value:
  "WriteTo 7 (V_struct ''Outer'' 12 [V_int32 1, V_struct ''Inner'' 8 [V_int32 2]])
     (FxSerializeUtil_start, FxSerializerIO_new 40 [] []) = Inr (outer_registry, outer_archive)"
  by (simp add: outer_registry_def outer_archive_def section_evals archive_evals
      replicate_numeral Let_def cong: then_do_weak_cong)

theorem WriteTo_frames_nested_records_witness:
  "WriteTo 7 (V_struct ''Outer'' 12 [V_int32 1, V_struct ''Inner'' 8 [V_int32 2]])
     (FxSerializeUtil_start, FxSerializerIO_new 40 [] []) = Inr (outer_registry, outer_archive)
   \<and> wrote (DataSection (FxSerializerIO_new 40 [] []))
        ([0x0B] @ [0, 1] @ [0, 0, 0, 7] @ [0, 0, 0, 1]
         @ ([0x0B] @ [0, 3] @ [0, 0, 0, 0] @ [0, 0, 0, 2] @ [0xB0]) @ [0xB0])
        (DataSection outer_archive)"
proof -
  have ids: "id_of outer_registry (T_struct ''Outer'' 12 [T_int32, T_struct ''Inner'' 8 [T_int32]]) = 1"
    "id_of outer_registry (T_struct ''Inner'' 8 [T_int32]) = 3"
    by (simp_all add: id_of_def GetTypeId_def outer_registry_def)
  from WriteTo_frames_nested_records [OF WriteTo_outer_value] WriteTo_outer_value
  show ?thesis
    by (simp add: ids be16_def be32_def DataIdentHeader_def DataIdentFooter_def)
qed

text \<open>
  Claim C3 as stated does not hold: the nested struct is written with a header and a footer
  of its own. The data section holds 24 bytes after the write, where the layout of the claim
  has 16.
\<close>

theorem WriteTo_nested_inline_counterexample:
  "data_written (WriteTo 7 outer_value (FxSerializeUtil_start, FxSerializerIO_new 40 [] []))
     = [0x0B, 0, 1, 0, 0, 0, 7, 0, 0, 0, 1,
        0x0B, 0, 3, 0, 0, 0, 0, 0, 0, 0, 2, 0xB0, 0xB0]
   \<and> outermost_framed_bytes (id_of outer_registry) 7 outer_value
     = [0x0B, 0, 1, 0, 0, 0, 7, 0, 0, 0, 1, 0, 0, 0, 2, 0xB0]"
proof -
  have "id_of outer_registry (T_struct ''Outer'' 12 [T_int32, T_struct ''Inner'' 8 [T_int32]]) = 1"
    by (simp add: id_of_def GetTypeId_def outer_registry_def)
  then show ?thesis
    by (simp only: outer_value_def WriteTo_outer_value)
      (simp add: data_written_def outer_archive_def
        be16_def be32_def DataIdentHeader_def DataIdentFooter_def)
qed

section \<open>What the read functions find\<close>


definition advance :: "nat \<Rightarrow> 'a FxSerializerBaseSection_scheme
    \<Rightarrow> 'a FxSerializerBaseSection_scheme" where
  "advance n s = s\<lparr>Index := Index s + of_nat n\<rparr>"

lemma advance_0 [simp]: "advance 0 s = s"
  by (simp add: advance_def)

lemma advance_advance: "advance m (advance n s) = advance (n + m) s"
  by (simp add: advance_def add.assoc)

lemma advance_same [simp]:
  "Data (advance n s) = Data s" "Size (advance n s) = Size s"
  by (simp_all add: advance_def)











section \<open>Reading back what was written\<close>




definition advance_data :: "nat \<Rightarrow> FxSerializerIO \<Rightarrow> FxSerializerIO" where
  "advance_data n w = w\<lparr>DataSection := advance n (DataSection w)\<rparr>"

lemma advance_data_simps [simp]:
  "DataSection (advance_data n w) = advance n (DataSection w)"
  "advance_data m (advance_data n w) = advance_data (n + m) w"
  "advance_data 0 w = w"
  by (simp_all add: advance_data_def advance_advance)









text \<open>
  A struct with an \<^verbatim>\<open>int32\<close>, a \<^verbatim>\<open>float32\<close> holding 3 and a nested struct, and the registry and
  the archive after it has been written to a new archive of 48 bytes.
\<close>

definition sample_value :: cpp_value where
  "sample_value = V_struct ''Sample'' 12 [V_int32 5, V_float32 3, V_struct ''Inner'' 8 [V_int32 2]]"




section \<open>Claim about writing a record and reading it back\<close>




section \<open>Properties kept by the writing of records\<close>

lemma WriteTypeForTypeId_pack_keeps:
  fixes P :: "cpp_type FxSerializeUtil \<Rightarrow> FxSerializerIO \<Rightarrow> bool"
  assumes reg: "\<And>T u w. P u w \<Longrightarrow> P (snd (GetTypeId T u)) w"
    and wtc: "\<And>type_id type_size args u w u' ts'. P u w \<Longrightarrow>
        WriteTypeWithoutChecks type_id type_size args (u, TypeSection w) = Inr (u', ts') \<Longrightarrow>
        P u' (w\<lparr>TypeSection := ts'\<rparr>)"
  shows "WriteTypeForTypeId_pack Ts (u, w) = Inr (u', w') \<Longrightarrow> P u w \<Longrightarrow> P u' w'"
proof (induction Ts arbitrary: u w)
  case Nil
  then show ?case by simp
next
  case (Cons T Ts)
  from Cons.prems(1) obtain u1 w1 where a: "WriteTypeForTypeId T (u, w) = Inr (u1, w1)"
    and r: "WriteTypeForTypeId_pack Ts (u1, w1) = Inr (u', w')"
    by (auto simp: then_do_eq_Inr simp del: WriteTypeForTypeId.simps)
  have "(\<forall>u w u' w'. WriteTypeForTypeId T (u, w) = Inr (u', w') \<longrightarrow> P u w \<longrightarrow> P u' w')
     \<and> (\<forall>u w u' w'. WriteTypeTo T (u, w) = Inr (u', w') \<longrightarrow> P u w \<longrightarrow> P u' w')"
    by (rule WriteType_keeps_aux [where P = P]) (erule reg, erule (1) wtc)
  then have "P u1 w1" using a Cons.prems(2) by blast
  with r show ?case by (rule Cons.IH)
qed

text \<open>
  A property of the registry and the archive is kept by \<^verbatim>\<open>FxSerializeValue\<close> and \<^verbatim>\<open>WriteTo\<close> when
  every \<^verbatim>\<open>GetTypeId\<close>, every \<^verbatim>\<open>WriteTypeWithoutChecks\<close> and every change of the data section
  keeps it.
\<close>

lemma FxSerializeValue_pack_keeps:
  fixes P :: "cpp_type FxSerializeUtil \<Rightarrow> FxSerializerIO \<Rightarrow> bool"
  assumes "\<And>v u w u' w'. v \<in> set vs \<Longrightarrow> FxSerializeValue v (u, w) = Inr (u', w') \<Longrightarrow>
      P u w \<Longrightarrow> P u' w'"
  shows "FxSerializeValue_pack vs (u, w) = Inr (u', w') \<Longrightarrow> P u w \<Longrightarrow> P u' w'"
  using assms
proof (induction vs arbitrary: u w)
  case Nil
  then show ?case by simp
next
  case (Cons v vs)
  from Cons.prems(1) obtain u1 w1 where a: "FxSerializeValue v (u, w) = Inr (u1, w1)"
    and r: "FxSerializeValue_pack vs (u1, w1) = Inr (u', w')"
    by (auto simp: then_do_eq_Inr)
  have p1: "P u1 w1" by (rule Cons.prems(3) [OF _ a Cons.prems(2)]) simp
  show ?case
  proof (rule Cons.IH [OF r p1])
    fix x ua wa ub wb
    assume "x \<in> set vs" and "FxSerializeValue x (ua, wa) = Inr (ub, wb)" and "P ua wa"
    then show "P ub wb" by (intro Cons.prems(3) [of x ua wa ub wb]) simp_all
  qed
qed

lemma WriteTo_keeps_step:
  fixes P :: "cpp_type FxSerializeUtil \<Rightarrow> FxSerializerIO \<Rightarrow> bool"
  assumes members: "\<And>v u w u' w'. v \<in> set members \<Longrightarrow>
      FxSerializeValue v (u, w) = Inr (u', w') \<Longrightarrow> P u w \<Longrightarrow> P u' w'"
    and reg: "\<And>T u w. P u w \<Longrightarrow> P (snd (GetTypeId T u)) w"
    and wtc: "\<And>type_id type_size args u w u' ts'. P u w \<Longrightarrow>
        WriteTypeWithoutChecks type_id type_size args (u, TypeSection w) = Inr (u', ts') \<Longrightarrow>
        P u' (w\<lparr>TypeSection := ts'\<rparr>)"
    and dat: "\<And>u w d. P u w \<Longrightarrow> P u (w\<lparr>DataSection := d\<rparr>)"
    and w: "WriteTo name_hash (V_struct name sz members) (u, w) = Inr (u', w')"
    and p: "P u w"
  shows "P u' w'"
proof -
  let ?T = "type_of (V_struct name sz members)"
  from w obtain u1 w1 where t: "WriteTypeTo ?T (u, w) = Inr (u1, w1)"
    and s: "FxSerializeStruct (fst (GetTypeId ?T u1)) name_hash members
              (snd (GetTypeId ?T u1), w1) = Inr (u', w')"
    by (auto simp: then_do_eq_Inr split_def Let_def
        simp del: WriteTypeTo.simps FxSerializeStruct.simps)
  let ?id = "fst (GetTypeId ?T u1)" and ?u2 = "snd (GetTypeId ?T u1)"
  from s obtain d1 u3 w3 d4 where
    pk: "FxSerializeValue_pack members (?u2, w1\<lparr>DataSection := d1\<rparr>) = Inr (u3, w3)"
    and e: "u' = u3" "w' = w3\<lparr>DataSection := d4\<rparr>"
    by (auto simp: then_do_eq_Inr on_data_Inr)
  have "P u1 w1" using t p by (rule WriteTypeTo_keeps) (erule reg, erule (1) wtc)
  then have "P ?u2 (w1\<lparr>DataSection := d1\<rparr>)" by (intro dat reg)
  with pk have "P u3 w3"
    by (rule FxSerializeValue_pack_keeps [where P = P, rotated]) (erule (2) members)
  then show ?thesis unfolding e by (rule dat)
qed

lemma FxSerializeValue_keeps:
  fixes P :: "cpp_type FxSerializeUtil \<Rightarrow> FxSerializerIO \<Rightarrow> bool"
  assumes reg: "\<And>T u w. P u w \<Longrightarrow> P (snd (GetTypeId T u)) w"
    and wtc: "\<And>type_id type_size args u w u' ts'. P u w \<Longrightarrow>
        WriteTypeWithoutChecks type_id type_size args (u, TypeSection w) = Inr (u', ts') \<Longrightarrow>
        P u' (w\<lparr>TypeSection := ts'\<rparr>)"
    and dat: "\<And>u w d. P u w \<Longrightarrow> P u (w\<lparr>DataSection := d\<rparr>)"
  shows "FxSerializeValue v (u, w) = Inr (u', w') \<Longrightarrow> P u w \<Longrightarrow> P u' w'"
proof (induction v arbitrary: u w u' w')
  case (V_int32 x)
  then show ?case by (auto simp: on_data_Inr intro: dat)
next
  case (V_float32 x)
  then show ?case by (auto simp: on_data_Inr split: option.splits intro: dat)
next
  case (V_string x)
  then show ?case by (auto simp: Let_def then_do_eq_Inr on_data_Inr intro: dat)
next
  case (V_bool x)
  then show ?case by simp
next
  case (V_struct name sz members)
  from V_struct.prems(1) have "WriteTo 0 (V_struct name sz members) (u, w) = Inr (u', w')"
    by simp
  then show ?case using V_struct.prems(2)
    by (rule WriteTo_keeps_step [where P = P, rotated 4])
      (erule (2) V_struct.IH, erule reg, erule (1) wtc, erule dat)
qed

lemma WriteTo_keeps:
  fixes P :: "cpp_type FxSerializeUtil \<Rightarrow> FxSerializerIO \<Rightarrow> bool"
  assumes "WriteTo name_hash v (u, w) = Inr (u', w')" and "P u w"
    and reg: "\<And>T u w. P u w \<Longrightarrow> P (snd (GetTypeId T u)) w"
    and wtc: "\<And>type_id type_size args u w u' ts'. P u w \<Longrightarrow>
        WriteTypeWithoutChecks type_id type_size args (u, TypeSection w) = Inr (u', ts') \<Longrightarrow>
        P u' (w\<lparr>TypeSection := ts'\<rparr>)"
    and dat: "\<And>u w d. P u w \<Longrightarrow> P u (w\<lparr>DataSection := d\<rparr>)"
  shows "P u' w'"
proof (cases v)
  case (V_struct name sz members)
  from assms(1,2) show ?thesis unfolding V_struct
    by (rule WriteTo_keeps_step [where P = P, rotated 4])
      (erule (1) FxSerializeValue_keeps [where P = P, rotated 3],
        erule reg, erule (1) wtc, erule dat, erule reg, erule (1) wtc, erule dat)
qed (use assms(1,2) in simp_all)

section \<open>The entries of the type section\<close>

lemma wrote_mRegisteredTypeIds:
  fixes ts ts' :: "'a FxSerializerTypeSection_scheme"
  shows "wrote ts bs ts' \<Longrightarrow> mRegisteredTypeIds ts' = mRegisteredTypeIds ts"
  by (simp add: wrote_def)

lemma write_member_func_pack_wrote:
  fixes ts ts' :: "'a FxSerializerTypeSection_scheme"
  shows "write_member_func_pack args (u, ts) = Inr (u', ts') \<Longrightarrow>
     \<exists>bs. wrote ts bs ts' \<and> length bs = 4 * length args"
proof (induction args arbitrary: u ts)
  case Nil
  then show ?case by simp
next
  case (Cons arg args)
  from Cons.prems obtain ts1 ts2 :: "'a FxSerializerTypeSection_scheme" where
    a: "Write16 (of_nat (sizeof arg)) ts = Inr ts1"
    and b: "Write16 (fst (GetTypeId arg u)) ts1 = Inr ts2"
    and r: "write_member_func_pack args (snd (GetTypeId arg u), ts2) = Inr (u', ts')"
    by (auto simp: then_do_eq_Inr split_def Let_def)
  from Cons.IH [OF r] obtain bs where bs: "wrote ts2 bs ts'" "length bs = 4 * length args"
    by blast
  have "wrote ts (be16 (of_nat (sizeof arg)) @ be16 (fst (GetTypeId arg u)) @ bs) ts'"
    by (rule wrote_append [OF Write16_wrote [OF a] wrote_append [OF Write16_wrote [OF b] bs(1)]])
  moreover have "length (be16 (of_nat (sizeof arg)) @ be16 (fst (GetTypeId arg u)) @ bs)
      = 4 * length (arg # args)"
    using bs(2) by (simp add: be16_def)
  ultimately show ?case by blast
qed

text \<open>
  A \<^verbatim>\<open>WriteTypeWithoutChecks\<close> that returns has either found the id among the registered ids
  and changed nothing, or has stored one entry at the cursor and registered the id, which was
  not registered before, with the offset of that entry.
\<close>

lemma WriteTypeWithoutChecks_entry:
  fixes ts ts' :: "'a FxSerializerTypeSection_scheme"
  assumes "WriteTypeWithoutChecks type_id type_size args (u, ts) = Inr (u', ts')"
  shows "(IsTypePreviouslyWritten type_id ts \<and> u' = u \<and> ts' = ts)
     \<or> (\<not> IsTypePreviouslyWritten type_id ts
        \<and> mRegisteredTypeIds ts'
            = mRegisteredTypeIds ts @ [\<lparr>Entry_Id = type_id, Entry_Offset = Index ts\<rparr>]
        \<and> (\<exists>bs. length bs = 4 * length args
             \<and> wrote ts ([TypeIdentHeader] @ be16 type_id @ be16 type_size
                         @ [of_nat (length args)] @ bs @ [TypeIdentFooter])
                 (ts'\<lparr>mRegisteredTypeIds := mRegisteredTypeIds ts\<rparr>)))"
  using assms
proof (cases rule: WriteTypeWithoutChecks_cases)
  case written
  then show ?thesis by simp
next
  case (new ts4 ts5 ts6)
  from write_member_func_pack_wrote [OF new(3)] obtain bs where
    bs: "wrote ts4 bs ts5" "length bs = 4 * length args"
    by blast
  have "wrote ts (([TypeIdentHeader] @ be16 type_id @ be16 type_size @ [of_nat (length args)])
      @ bs @ [TypeIdentFooter]) ts6"
    by (rule wrote_append [OF new(2) wrote_append [OF bs(1) Write8_wrote [OF new(4)]]])
  then have w: "wrote ts ([TypeIdentHeader] @ be16 type_id @ be16 type_size
      @ [of_nat (length args)] @ bs @ [TypeIdentFooter]) ts6"
    by simp
  have r: "mRegisteredTypeIds ts6 = mRegisteredTypeIds ts"
    using w by (rule wrote_mRegisteredTypeIds)
  have "ts'\<lparr>mRegisteredTypeIds := mRegisteredTypeIds ts\<rparr> = ts6"
    using new(5) r by simp
  with w have "wrote ts ([TypeIdentHeader] @ be16 type_id @ be16 type_size
      @ [of_nat (length args)] @ bs @ [TypeIdentFooter])
      (ts'\<lparr>mRegisteredTypeIds := mRegisteredTypeIds ts\<rparr>)"
    by simp
  with bs(2) have "\<exists>bs. length bs = 4 * length args
      \<and> wrote ts ([TypeIdentHeader] @ be16 type_id @ be16 type_size
                  @ [of_nat (length args)] @ bs @ [TypeIdentFooter])
          (ts'\<lparr>mRegisteredTypeIds := mRegisteredTypeIds ts\<rparr>)"
    by blast
  moreover have "mRegisteredTypeIds ts'
      = mRegisteredTypeIds ts @ [\<lparr>Entry_Id = type_id, Entry_Offset = Index ts\<rparr>]"
    using new(5) r by simp
  ultimately show ?thesis using new(1) by blast
qed

text \<open>The ids of the entries that the type section of an archive has registered.\<close>

definition schema_ids :: "FxSerializerIO \<Rightarrow> uint16 list" where
  "schema_ids writer = map Entry_Id (mRegisteredTypeIds (TypeSection writer))"

lemma schema_ids_DataSection [simp]: "schema_ids (w\<lparr>DataSection := d\<rparr>) = schema_ids w"
  by (simp add: schema_ids_def)

lemma WriteTypeWithoutChecks_schema_ids:
  assumes "WriteTypeWithoutChecks type_id type_size args (u, TypeSection w) = Inr (u', ts')"
  shows "(type_id \<in> set (schema_ids w) \<and> u' = u \<and> ts' = TypeSection w)
     \<or> (type_id \<notin> set (schema_ids w)
        \<and> schema_ids (w\<lparr>TypeSection := ts'\<rparr>) = schema_ids w @ [type_id])"
  using WriteTypeWithoutChecks_entry [OF assms]
  by (auto simp: schema_ids_def IsTypePreviouslyWritten_def)

lemma WriteTo_distinct:
  assumes "WriteTo name_hash v (u, w) = Inr (u', w')" and "distinct (schema_ids w)"
  shows "distinct (schema_ids w')"
  by (rule WriteTo_keeps [where P = "\<lambda>u1 w1. distinct (schema_ids w1)", OF assms])
    (use WriteTypeWithoutChecks_schema_ids in fastforce)+

lemma WriteTo_grown:
  assumes "WriteTo name_hash v (u, w) = Inr (u', w')"
  shows "ids_kept u u' \<and> set (schema_ids w) \<subseteq> set (schema_ids w')"
proof (rule WriteTo_keeps [where P = "\<lambda>u1 w1. ids_kept u u1 \<and> set (schema_ids w) \<subseteq> set (schema_ids w1)",
      OF assms])
  show "ids_kept u u \<and> set (schema_ids w) \<subseteq> set (schema_ids w)" by simp
next
  fix T u1 and w1 :: FxSerializerIO
  assume "ids_kept u u1 \<and> set (schema_ids w) \<subseteq> set (schema_ids w1)"
  then show "ids_kept u (snd (GetTypeId T u1)) \<and> set (schema_ids w) \<subseteq> set (schema_ids w1)"
    by (auto intro: ids_kept_trans GetTypeId_kept)
next
  fix type_id type_size args u1 and w1 :: FxSerializerIO and u2 ts2
  assume p: "ids_kept u u1 \<and> set (schema_ids w) \<subseteq> set (schema_ids w1)"
    and c: "WriteTypeWithoutChecks type_id type_size args (u1, TypeSection w1) = Inr (u2, ts2)"
  have "ids_kept u1 u2" using c by (rule WriteTypeWithoutChecks_kept)
  moreover have "set (schema_ids w1) \<subseteq> set (schema_ids (w1\<lparr>TypeSection := ts2\<rparr>))"
    using WriteTypeWithoutChecks_schema_ids [OF c] by auto
  ultimately show "ids_kept u u2 \<and> set (schema_ids w) \<subseteq> set (schema_ids (w1\<lparr>TypeSection := ts2\<rparr>))"
    using p by (auto intro: ids_kept_trans)
next
  fix u1 and w1 :: FxSerializerIO and d
  assume "ids_kept u u1 \<and> set (schema_ids w) \<subseteq> set (schema_ids w1)"
  then show "ids_kept u u1 \<and> set (schema_ids w) \<subseteq> set (schema_ids (w1\<lparr>DataSection := d\<rparr>))"
    by simp
qed

text \<open>
  The struct types in a type all have an id in the registry \<open>u\<close>, and the type section \<open>ts\<close> has
  registered an entry for each of these ids.
\<close>

fun types_written :: "cpp_type FxSerializeUtil \<Rightarrow> FxSerializerTypeSection \<Rightarrow> cpp_type \<Rightarrow> bool" where
  "types_written u ts (T_struct name sz members) \<longleftrightarrow>
     (case tid u (T_struct name sz members) of
        None \<Rightarrow> False
      | Some t \<Rightarrow> IsTypePreviouslyWritten t ts)
     \<and> list_all (types_written u ts) members"
| "types_written u ts T_int32 \<longleftrightarrow> True"
| "types_written u ts T_float32 \<longleftrightarrow> True"
| "types_written u ts T_string \<longleftrightarrow> True"
| "types_written u ts T_bool \<longleftrightarrow> True"

lemma types_written_grown:
  assumes "ids_kept u u'"
    and "set (schema_ids w) \<subseteq> set (schema_ids w')"
  shows "types_written u (TypeSection w) T \<Longrightarrow> types_written u' (TypeSection w') T"
proof (induction T)
  case (T_struct name sz members)
  let ?T = "T_struct name sz members"
  from T_struct.prems obtain t where t: "tid u ?T = Some t"
    and r: "t \<in> set (schema_ids w)"
    and m: "list_all (types_written u (TypeSection w)) members"
    by (auto simp: schema_ids_def IsTypePreviouslyWritten_def split: option.splits)
  have "tid u' ?T = Some t" using assms(1) t by (simp add: ids_kept_def)
  moreover have "t \<in> set (schema_ids w')" using assms(2) r by blast
  moreover have "list_all (types_written u' (TypeSection w')) members"
    using T_struct.IH m by (auto simp: list_all_iff)
  ultimately show ?case by (simp add: schema_ids_def IsTypePreviouslyWritten_def)
qed simp_all

lemma WriteTypeTo_written:
  assumes "WriteTypeTo (T_struct name sz members) (u, w) = Inr (u1, w1)"
  shows "\<exists>t. tid u1 (T_struct name sz members) = Some t \<and> t \<in> set (schema_ids w1)"
proof -
  let ?T = "T_struct name sz members"
  let ?t = "fst (GetTypeId ?T u)" and ?ua = "snd (GetTypeId ?T u)"
  have ta: "tid ?ua ?T = Some ?t" by (rule GetTypeId_assigned)
  show ?thesis
  proof (cases "IsTypePreviouslyWritten ?t (TypeSection w)")
    case True
    with assms have "u1 = ?ua" "w1 = w" by (simp_all add: split_def Let_def)
    with True ta show ?thesis by (simp add: schema_ids_def IsTypePreviouslyWritten_def)
  next
    case False
    with assms obtain u2 w2 ts where
      pk: "WriteTypeForTypeId_pack members (?ua, w) = Inr (u2, w2)"
      and c: "WriteTypeWithoutChecks ?t (of_nat sz) members (u2, TypeSection w2) = Inr (u1, ts)"
      and e: "w1 = w2\<lparr>TypeSection := ts\<rparr>"
      by (auto simp: split_def Let_def then_do_eq_Inr)
    have "ids_kept ?ua u2"
      by (rule WriteTypeForTypeId_pack_keeps [where P = "\<lambda>u1 w1. ids_kept ?ua u1", OF _ _ pk])
        (auto intro: ids_kept_trans GetTypeId_kept WriteTypeWithoutChecks_kept)
    moreover have "ids_kept u2 u1" using c by (rule WriteTypeWithoutChecks_kept)
    ultimately have "tid u1 ?T = Some ?t" using ta by (simp add: ids_kept_def)
    moreover have "?t \<in> set (schema_ids w1)"
    proof -
      from WriteTypeWithoutChecks_schema_ids [OF c]
      consider "?t \<in> set (schema_ids w2)" "ts = TypeSection w2"
        | "schema_ids (w2\<lparr>TypeSection := ts\<rparr>) = schema_ids w2 @ [?t]"
        by blast
      then show ?thesis
      proof cases
        case 1
        then show ?thesis by (simp add: e schema_ids_def)
      next
        case 2
        then show ?thesis by (simp only: e) simp
      qed
    qed
    ultimately show ?thesis by blast
  qed
qed

lemma FxSerializeValue_grown:
  assumes "FxSerializeValue v (u, w) = Inr (u', w')"
  shows "ids_kept u u' \<and> set (schema_ids w) \<subseteq> set (schema_ids w')"
proof (cases v)
  case (V_struct name sz members)
  with assms have "WriteTo 0 v (u, w) = Inr (u', w')" by simp
  then show ?thesis by (rule WriteTo_grown)
qed (use assms in \<open>auto simp: on_data_Inr then_do_eq_Inr Let_def split: option.splits\<close>)

text \<open>After a \<^verbatim>\<open>WriteTo\<close> that returns, the struct types of the value are written.\<close>

lemma FxSerializeValue_pack_written:
  assumes "\<And>x u w u' w'. x \<in> set vs \<Longrightarrow> FxSerializeValue x (u, w) = Inr (u', w') \<Longrightarrow>
      types_written u' (TypeSection w') (type_of x)"
    and "FxSerializeValue_pack vs (u, w) = Inr (u', w')"
  shows "list_all (\<lambda>x. types_written u' (TypeSection w') (type_of x)) vs
     \<and> ids_kept u u' \<and> set (schema_ids w) \<subseteq> set (schema_ids w')"
  using assms
proof (induction vs arbitrary: u w)
  case Nil
  then show ?case by simp
next
  case (Cons v vs)
  from Cons.prems(2) obtain u1 w1 where a: "FxSerializeValue v (u, w) = Inr (u1, w1)"
    and r: "FxSerializeValue_pack vs (u1, w1) = Inr (u', w')"
    by (auto simp: then_do_eq_Inr)
  have v: "types_written u1 (TypeSection w1) (type_of v)"
    by (rule Cons.prems(1) [OF _ a]) simp
  note g1 = FxSerializeValue_grown [OF a]
  have "list_all (\<lambda>x. types_written u' (TypeSection w') (type_of x)) vs
     \<and> ids_kept u1 u' \<and> set (schema_ids w1) \<subseteq> set (schema_ids w')"
  proof (rule Cons.IH [OF _ r])
    fix x ua wa ub wb
    assume "x \<in> set vs" and "FxSerializeValue x (ua, wa) = Inr (ub, wb)"
    then show "types_written ub (TypeSection wb) (type_of x)"
      by (intro Cons.prems(1)) simp_all
  qed
  then have vs: "list_all (\<lambda>x. types_written u' (TypeSection w') (type_of x)) vs"
    and g2: "ids_kept u1 u'" "set (schema_ids w1) \<subseteq> set (schema_ids w')"
    by simp_all
  have "types_written u' (TypeSection w') (type_of v)"
    using g2 v by (rule types_written_grown)
  moreover have "ids_kept u u'" using g1 g2(1) by (blast intro: ids_kept_trans)
  moreover have "set (schema_ids w) \<subseteq> set (schema_ids w')" using g1 g2(2) by blast
  ultimately show ?case using vs by simp
qed

lemma WriteTo_written_step:
  assumes members: "\<And>x u w u' w'. x \<in> set members \<Longrightarrow>
      FxSerializeValue x (u, w) = Inr (u', w') \<Longrightarrow> types_written u' (TypeSection w') (type_of x)"
    and w: "WriteTo name_hash (V_struct name sz members) (u, w) = Inr (u', w')"
  shows "types_written u' (TypeSection w') (type_of (V_struct name sz members))"
proof -
  let ?T = "type_of (V_struct name sz members)"
  from w obtain u1 w1 where t: "WriteTypeTo ?T (u, w) = Inr (u1, w1)"
    and s: "FxSerializeStruct (fst (GetTypeId ?T u1)) name_hash members
              (snd (GetTypeId ?T u1), w1) = Inr (u', w')"
    by (auto simp: then_do_eq_Inr split_def Let_def
        simp del: WriteTypeTo.simps FxSerializeStruct.simps)
  let ?u2 = "snd (GetTypeId ?T u1)"
  from s obtain d1 u3 w3 d4 where
    pk: "FxSerializeValue_pack members (?u2, w1\<lparr>DataSection := d1\<rparr>) = Inr (u3, w3)"
    and e: "u' = u3" "w' = w3\<lparr>DataSection := d4\<rparr>"
    by (auto simp: then_do_eq_Inr on_data_Inr)
  from t obtain t0 where t0: "tid u1 ?T = Some t0" "t0 \<in> set (schema_ids w1)"
    using WriteTypeTo_written [of name sz "map type_of members" u w u1 w1] by auto
  from FxSerializeValue_pack_written [OF members pk]
  have ms: "list_all (\<lambda>x. types_written u3 (TypeSection w3) (type_of x)) members"
    and g: "ids_kept ?u2 u3" "set (schema_ids (w1\<lparr>DataSection := d1\<rparr>)) \<subseteq> set (schema_ids w3)"
    by simp_all
  have "ids_kept u1 ?u2" by (rule GetTypeId_kept)
  then have "tid u3 ?T = Some t0" using g(1) t0(1) by (simp add: ids_kept_def)
  moreover have "t0 \<in> set (schema_ids w3)" using g(2) t0(2) by auto
  ultimately show ?thesis using ms e
    by (simp add: schema_ids_def IsTypePreviouslyWritten_def list_all_iff)
qed

lemma FxSerializeValue_written:
  "FxSerializeValue v (u, w) = Inr (u', w') \<Longrightarrow> types_written u' (TypeSection w') (type_of v)"
proof (induction v arbitrary: u w u' w')
  case (V_struct name sz members)
  from V_struct.prems have "WriteTo 0 (V_struct name sz members) (u, w) = Inr (u', w')"
    by simp
  then show ?case by (rule WriteTo_written_step [rotated]) (rule V_struct.IH)
qed simp_all

text \<open>
  When the struct types of a value are written, \<^verbatim>\<open>WriteTo\<close> changes neither the registry nor the
  type section.
\<close>

lemma FxSerializeValue_pack_same:
  assumes "\<And>x u w u' w'. x \<in> set vs \<Longrightarrow> types_written u (TypeSection w) (type_of x) \<Longrightarrow>
      FxSerializeValue x (u, w) = Inr (u', w') \<Longrightarrow> u' = u \<and> TypeSection w' = TypeSection w"
    and "list_all (\<lambda>x. types_written u (TypeSection w) (type_of x)) vs"
    and "FxSerializeValue_pack vs (u, w) = Inr (u', w')"
  shows "u' = u \<and> TypeSection w' = TypeSection w"
  using assms
proof (induction vs arbitrary: w)
  case Nil
  then show ?case by simp
next
  case (Cons v vs)
  from Cons.prems(3) obtain u1 w1 where a: "FxSerializeValue v (u, w) = Inr (u1, w1)"
    and r: "FxSerializeValue_pack vs (u1, w1) = Inr (u', w')"
    by (auto simp: then_do_eq_Inr)
  have "u1 = u \<and> TypeSection w1 = TypeSection w"
    by (rule Cons.prems(1) [OF _ _ a]) (use Cons.prems(2) in simp_all)
  then have 1: "u1 = u" "TypeSection w1 = TypeSection w" by simp_all
  have "u' = u \<and> TypeSection w' = TypeSection w1"
  proof (rule Cons.IH)
    show "list_all (\<lambda>x. types_written u (TypeSection w1) (type_of x)) vs"
      using Cons.prems(2) 1 by simp
    show "FxSerializeValue_pack vs (u, w1) = Inr (u', w')" using r 1 by simp
  next
    fix x ua and wa :: FxSerializerIO and ub wb
    assume "x \<in> set vs" and "types_written ua (TypeSection wa) (type_of x)"
      and "FxSerializeValue x (ua, wa) = Inr (ub, wb)"
    then show "ub = ua \<and> TypeSection wb = TypeSection wa"
      by (intro Cons.prems(1) [of x]) simp_all
  qed
  with 1 show ?case by simp
qed

lemma WriteTo_same_step:
  assumes members: "\<And>x u w u' w'. x \<in> set members \<Longrightarrow>
      types_written u (TypeSection w) (type_of x) \<Longrightarrow>
      FxSerializeValue x (u, w) = Inr (u', w') \<Longrightarrow> u' = u \<and> TypeSection w' = TypeSection w"
    and tw: "types_written u (TypeSection w) (type_of (V_struct name sz members))"
    and w: "WriteTo name_hash (V_struct name sz members) (u, w) = Inr (u', w')"
  shows "u' = u \<and> TypeSection w' = TypeSection w"
proof -
  let ?T = "T_struct name sz (map type_of members)"
  from tw obtain t where t: "tid u ?T = Some t"
    and r: "IsTypePreviouslyWritten t (TypeSection w)"
    and m: "list_all (\<lambda>x. types_written u (TypeSection w) (type_of x)) members"
    by (auto simp: list_all_iff split: option.splits)
  have g: "GetTypeId ?T u = (t, u)" using t by (rule GetTypeId_known)
  from w g r have "FxSerializeStruct t name_hash members (u, w) = Inr (u', w')"
    by (simp del: FxSerializeStruct.simps)
  then obtain d1 u3 w3 d4 where
    pk: "FxSerializeValue_pack members (u, w\<lparr>DataSection := d1\<rparr>) = Inr (u3, w3)"
    and e: "u' = u3" "w' = w3\<lparr>DataSection := d4\<rparr>"
    by (auto simp: then_do_eq_Inr on_data_Inr)
  have "u3 = u \<and> TypeSection w3 = TypeSection (w\<lparr>DataSection := d1\<rparr>)"
    by (rule FxSerializeValue_pack_same [OF members _ pk]) (use m in simp_all)
  then show ?thesis using e by simp
qed

lemma FxSerializeValue_same:
  "types_written u (TypeSection w) (type_of v) \<Longrightarrow> FxSerializeValue v (u, w) = Inr (u', w') \<Longrightarrow>
     u' = u \<and> TypeSection w' = TypeSection w"
proof (induction v arbitrary: u w u' w')
  case (V_int32 x)
  then show ?case by (auto simp: on_data_Inr)
next
  case (V_float32 x)
  then show ?case by (auto simp: on_data_Inr split: option.splits)
next
  case (V_string x)
  then show ?case by (auto simp: Let_def then_do_eq_Inr on_data_Inr)
next
  case (V_bool x)
  then show ?case by simp
next
  case (V_struct name sz members)
  from V_struct.prems(2) have "WriteTo 0 (V_struct name sz members) (u, w) = Inr (u', w')"
    by simp
  with V_struct.prems(1) show ?case
    by (rule WriteTo_same_step [rotated]) (erule (2) V_struct.IH)
qed

text \<open>Several records written one after the other into the same archive.\<close>

fun WriteTo_each :: "(FxHash \<times> cpp_value) list \<Rightarrow> cpp_type FxSerializeUtil \<times> FxSerializerIO
    \<Rightarrow> fault + (cpp_type FxSerializeUtil \<times> FxSerializerIO)" where
  "WriteTo_each [] st = Inr st"
| "WriteTo_each ((name_hash, v) # rest) st = then_do (WriteTo name_hash v st) (WriteTo_each rest)"

lemma WriteTo_each_distinct:
  "WriteTo_each rs (u, w) = Inr (u', w') \<Longrightarrow> distinct (schema_ids w) \<Longrightarrow> distinct (schema_ids w')"
proof (induction rs arbitrary: u w)
  case Nil
  then show ?case by simp
next
  case (Cons r rs)
  obtain h v where r: "r = (h, v)" by (cases r)
  from Cons.prems(1) obtain u1 w1 where a: "WriteTo h v (u, w) = Inr (u1, w1)"
    and b: "WriteTo_each rs (u1, w1) = Inr (u', w')"
    by (auto simp: r then_do_eq_Inr)
  from a Cons.prems(2) have "distinct (schema_ids w1)" by (rule WriteTo_distinct)
  with b show ?case by (rule Cons.IH)
qed

lemma WriteTo_each_same:
  assumes "types_written u (TypeSection w) (T_struct name sz Ts)"
  shows "\<forall>(h, v) \<in> set rs. type_of v = T_struct name sz Ts \<Longrightarrow>
     WriteTo_each rs (u, w) = Inr (u', w') \<Longrightarrow> u' = u \<and> TypeSection w' = TypeSection w"
  using assms
proof (induction rs arbitrary: w)
  case Nil
  then show ?case by simp
next
  case (Cons r rs)
  obtain h v where r: "r = (h, v)" by (cases r)
  from Cons.prems(1) have ty: "type_of v = T_struct name sz Ts"
    and rest: "\<forall>(h, v) \<in> set rs. type_of v = T_struct name sz Ts"
    by (simp_all add: r)
  from ty obtain members where v: "v = V_struct name sz members" by (cases v) auto
  from Cons.prems(2) obtain u1 w1 where a: "WriteTo h (V_struct name sz members) (u, w) = Inr (u1, w1)"
    and b: "WriteTo_each rs (u1, w1) = Inr (u', w')"
    by (auto simp: r v then_do_eq_Inr simp del: WriteTo.simps)
  have tw: "types_written u (TypeSection w) (type_of (V_struct name sz members))"
    using Cons.prems(3) ty by (simp only: v)
  have "u1 = u \<and> TypeSection w1 = TypeSection w"
    using tw a by (rule WriteTo_same_step [rotated]) (erule (1) FxSerializeValue_same)
  then have 1: "u1 = u" "TypeSection w1 = TypeSection w" by simp_all
  have "u' = u \<and> TypeSection w' = TypeSection w1"
    by (rule Cons.IH [OF rest]) (use b 1 Cons.prems(3) in simp_all)
  with 1 show ?case by simp
qed

text \<open>
  The archive of 64 bytes after one record of the struct \<^verbatim>\<open>Outer\<close> (an \<^verbatim>\<open>int32\<close> and a nested struct
  \<^verbatim>\<open>Inner\<close> of one \<^verbatim>\<open>int32\<close>) has been written to it, and after a second one.
\<close>

definition outer_types :: FxSerializerTypeSection where
  "outer_types =
     \<lparr>Data = [0xEF, 0, 2, 0, 4, 0, 0xBE,
              0xEF, 0, 3, 0, 8, 1, 0, 4, 0, 2, 0xBE,
              0xEF, 0, 1, 0, 12, 2, 0, 4, 0, 2, 0, 8, 0, 3, 0xBE] @ replicate 31 0,
      Index = 33, Size = 64,
      mRegisteredTypeIds =
        [\<lparr>Entry_Id = 2, Entry_Offset = 0\<rparr>, \<lparr>Entry_Id = 3, Entry_Offset = 7\<rparr>,
         \<lparr>Entry_Id = 1, Entry_Offset = 18\<rparr>]\<rparr>"

definition archive_of_one :: FxSerializerIO where
  "archive_of_one =
     \<lparr>TypeSection = outer_types,
      DataSection =
        \<lparr>Data = [0x0B, 0, 1, 0, 0, 0, 7, 0, 0, 0, 1,
                 0x0B, 0, 3, 0, 0, 0, 0, 0, 0, 0, 2, 0xB0, 0xB0] @ replicate 40 0,
         Index = 24, Size = 64\<rparr>\<rparr>"

definition archive_of_two :: FxSerializerIO where
  "archive_of_two =
     \<lparr>TypeSection = outer_types,
      DataSection =
        \<lparr>Data = [0x0B, 0, 1, 0, 0, 0, 7, 0, 0, 0, 1,
                 0x0B, 0, 3, 0, 0, 0, 0, 0, 0, 0, 2, 0xB0, 0xB0,
                 0x0B, 0, 1, 0, 0, 0, 8, 0, 0, 0, 3,
                 0x0B, 0, 3, 0, 0, 0, 0, 0, 0, 0, 4, 0xB0, 0xB0] @ replicate 16 0,
         Index = 48, Size = 64\<rparr>\<rparr>"

lemma WriteTo_archive_of_one:
  "WriteTo 7 (V_struct ''Outer'' 12 [V_int32 1, V_struct ''Inner'' 8 [V_int32 2]])
     (FxSerializeUtil_start, FxSerializerIO_new 64 [] []) = Inr (outer_registry, archive_of_one)"
  by (simp add: outer_registry_def archive_of_one_def outer_types_def section_evals archive_evals
      replicate_numeral Let_def cong: then_do_weak_cong)

lemma WriteTo_archive_of_two:
  "WriteTo_each [(8, V_struct ''Outer'' 12 [V_int32 3, V_struct ''Inner'' 8 [V_int32 4]])]
     (outer_registry, archive_of_one) = Inr (outer_registry, archive_of_two)"
  by (simp add: outer_registry_def archive_of_one_def archive_of_two_def outer_types_def
      section_evals archive_evals replicate_numeral Let_def cong: then_do_weak_cong)

text \<open>
  The bytes of one entry for the id \<open>type_id\<close>: the start marker, the id, the size, the number
  of members in one byte, four bytes for every member, and the end marker.
\<close>

definition entry_for :: "uint16 \<Rightarrow> uint8 list \<Rightarrow> bool" where
  "entry_for type_id bs \<longleftrightarrow>
     7 \<le> length bs \<and> 4 dvd (length bs - 7)
     \<and> take 3 bs = TypeIdentHeader # be16 type_id
     \<and> bs ! 5 = of_nat ((length bs - 7) div 4)
     \<and> last bs = TypeIdentFooter"

text \<open>
  \<open>laid_out_from pos entries bytes\<close>: from the position \<open>pos\<close> to their end, the \<open>bytes\<close> are the
  entries of the registered \<open>entries\<close>, one after the other, each at its registered offset and
  with its registered id. \<open>laid_out ts\<close> says this of the bytes of a type section up to its
  cursor.
\<close>

fun laid_out_from :: "nat \<Rightarrow> TypeEntry list \<Rightarrow> uint8 list \<Rightarrow> bool" where
  "laid_out_from pos [] bytes \<longleftrightarrow> pos = length bytes"
| "laid_out_from pos (e # es) bytes \<longleftrightarrow>
     (let nxt = (case es of [] \<Rightarrow> length bytes | e' # es' \<Rightarrow> unat (Entry_Offset e'))
      in unat (Entry_Offset e) = pos \<and> pos \<le> nxt \<and> nxt \<le> length bytes
         \<and> entry_for (Entry_Id e) (take (nxt - pos) (drop pos bytes))
         \<and> laid_out_from nxt es bytes)"

definition laid_out :: "'a FxSerializerTypeSection_scheme \<Rightarrow> bool" where
  "laid_out ts \<longleftrightarrow> laid_out_from 0 (mRegisteredTypeIds ts) (take (unat (Index ts)) (Data ts))"

lemma entry_for_written:
  assumes "length ms = 4 * n"
  shows "entry_for type_id
     ([TypeIdentHeader] @ be16 type_id @ be16 type_size @ [of_nat n] @ ms @ [TypeIdentFooter])"
proof -
  obtain a b where i: "be16 type_id = [a, b]" by (simp add: be16_def)
  obtain c d where s: "be16 type_size = [c, d]" by (simp add: be16_def)
  show ?thesis using assms by (simp add: entry_for_def i s nth_append)
qed

lemma laid_out_from_append:
  assumes "unat (Entry_Offset e) = length bytes" and "entry_for (Entry_Id e) entry"
  shows "laid_out_from pos es bytes \<Longrightarrow> laid_out_from pos (es @ [e]) (bytes @ entry)"
proof (induction es arbitrary: pos)
  case Nil
  then show ?case using assms by simp
next
  case (Cons e0 es)
  let ?nxt = "case es of [] \<Rightarrow> length bytes | e' # es' \<Rightarrow> unat (Entry_Offset e')"
  from Cons.prems have p: "unat (Entry_Offset e0) = pos" "pos \<le> ?nxt" "?nxt \<le> length bytes"
    and f: "entry_for (Entry_Id e0) (take (?nxt - pos) (drop pos bytes))"
    and r: "laid_out_from ?nxt es bytes"
    by (simp_all add: Let_def)
  have n: "(case es @ [e] of [] \<Rightarrow> length (bytes @ entry) | e' # es' \<Rightarrow> unat (Entry_Offset e'))
      = ?nxt"
    using assms(1) by (cases es) simp_all
  have "take (?nxt - pos) (drop pos (bytes @ entry)) = take (?nxt - pos) (drop pos bytes)"
    using p(2,3) by simp
  with p f Cons.IH [OF r] show ?case by (simp add: Let_def n del: laid_out_from.simps(1))
qed

lemma WriteTypeWithoutChecks_laid_out:
  fixes ts ts' :: "'a FxSerializerTypeSection_scheme"
  assumes "WriteTypeWithoutChecks type_id type_size args (u, ts) = Inr (u', ts')"
    and "laid_out ts"
  shows "laid_out ts'"
proof -
  from WriteTypeWithoutChecks_entry [OF assms(1)]
  consider "ts' = ts"
    | bs where "mRegisteredTypeIds ts'
            = mRegisteredTypeIds ts @ [\<lparr>Entry_Id = type_id, Entry_Offset = Index ts\<rparr>]"
        "length bs = 4 * length args"
        "wrote ts ([TypeIdentHeader] @ be16 type_id @ be16 type_size
                   @ [of_nat (length args)] @ bs @ [TypeIdentFooter])
           (ts'\<lparr>mRegisteredTypeIds := mRegisteredTypeIds ts\<rparr>)"
    by blast
  then show ?thesis
  proof cases
    case 1
    then show ?thesis using assms(2) by simp
  next
    case 2
    let ?entry = "[TypeIdentHeader] @ be16 type_id @ be16 type_size
                   @ [of_nat (length args)] @ bs @ [TypeIdentFooter]"
    let ?i = "unat (Index ts)"
    have ne: "?entry \<noteq> []" by simp
    from 2(3) have e: "ts'\<lparr>mRegisteredTypeIds := mRegisteredTypeIds ts\<rparr>
        = ts\<lparr>Data := take ?i (Data ts) @ ?entry @ drop (?i + length ?entry) (Data ts),
              Index := Index ts + of_nat (length ?entry)\<rparr>"
      and b: "?i + length ?entry \<le> unat (Size ts)" "?i + length ?entry \<le> length (Data ts)"
      unfolding wrote_def using ne by blast+
    have d: "Data ts' = take ?i (Data ts) @ ?entry @ drop (?i + length ?entry) (Data ts)"
      using arg_cong [OF e, of Data] by simp
    have "Index ts' = Index ts + of_nat (length ?entry)"
      using arg_cong [OF e, of Index] by simp
    moreover have "unat (Index ts + of_nat (length ?entry)) = ?i + length ?entry"
      using b(1) by (rule unat_add_of_nat)
    ultimately have i: "unat (Index ts') = ?i + length ?entry" by simp
    have l: "length (take ?i (Data ts)) = ?i" using b(2) by simp
    have t: "take (unat (Index ts')) (Data ts') = take ?i (Data ts) @ ?entry"
      unfolding i d using l by (simp del: append_Cons append_Nil)
    have "laid_out_from 0 (mRegisteredTypeIds ts @ [\<lparr>Entry_Id = type_id, Entry_Offset = Index ts\<rparr>])
        (take ?i (Data ts) @ ?entry)"
    proof (rule laid_out_from_append)
      show "unat (Entry_Offset \<lparr>Entry_Id = type_id, Entry_Offset = Index ts\<rparr>)
          = length (take ?i (Data ts))"
        using l by simp
      show "entry_for (Entry_Id \<lparr>Entry_Id = type_id, Entry_Offset = Index ts\<rparr>) ?entry"
        using entry_for_written [OF 2(2), of type_id type_size] by simp
      show "laid_out_from 0 (mRegisteredTypeIds ts) (take ?i (Data ts))"
        using assms(2) by (simp add: laid_out_def)
    qed
    then show ?thesis by (simp only: laid_out_def 2(1) t)
  qed
qed

lemma WriteTo_laid_out:
  assumes "WriteTo name_hash v (u, w) = Inr (u', w')" and "laid_out (TypeSection w)"
  shows "laid_out (TypeSection w')"
  by (rule WriteTo_keeps [where P = "\<lambda>u1 w1. laid_out (TypeSection w1)", OF assms])
    (simp_all add: WriteTypeWithoutChecks_laid_out)

lemma WriteTo_each_laid_out:
  "WriteTo_each rs (u, w) = Inr (u', w') \<Longrightarrow> laid_out (TypeSection w) \<Longrightarrow>
     laid_out (TypeSection w')"
proof (induction rs arbitrary: u w)
  case Nil
  then show ?case by simp
next
  case (Cons r rs)
  obtain h v where r: "r = (h, v)" by (cases r)
  from Cons.prems(1) obtain u1 w1 where a: "WriteTo h v (u, w) = Inr (u1, w1)"
    and b: "WriteTo_each rs (u1, w1) = Inr (u', w')"
    by (auto simp: r then_do_eq_Inr)
  from a Cons.prems(2) have "laid_out (TypeSection w1)" by (rule WriteTo_laid_out)
  with b show ?case by (rule Cons.IH)
qed

section \<open>Claim about the entries of the type section\<close>

text \<open>
  Claim C5. Let an archive be made by the constructor and by any number of \<^verbatim>\<open>WriteTo\<close> calls
  that return (records of any types), let then a record of a struct type be written to it,
  and after it any number of further records of the same type. Then

    \<^item> no two entries that the type section has registered have the same id, before these
      records and after them: \<^verbatim>\<open>WriteTypeWithoutChecks\<close>, the only function that stores an entry,
      stores one only for an id that is not registered, and registers it;

    \<^item> the bytes of the type section up to its cursor are the entries of the registered ids
      and nothing else: one entry for each, in the order and at the offsets registered;

    \<^item> after the first of these records, the struct type and every struct type nested in it
      has an id and an entry registered for that id;

    \<^item> the further records change neither the registry nor the type section: its bytes, its
      cursor and its registered entries are those after the first record, however many
      records follow.
\<close>

theorem schema_entries_written_once:
  assumes "WriteTo_each former (u0, FxSerializerIO_new buffer_size mem_t mem_d) = Inr (u, writer)"
    and "WriteTo name_hash (V_struct name sz members) (u, writer) = Inr (u1, writer1)"
    and "\<forall>(h, v) \<in> set further. type_of v = type_of (V_struct name sz members)"
    and "WriteTo_each further (u1, writer1) = Inr (u2, writer2)"
  shows "distinct (schema_ids writer) \<and> distinct (schema_ids writer2)
     \<and> laid_out (TypeSection writer) \<and> laid_out (TypeSection writer2)
     \<and> types_written u1 (TypeSection writer1) (type_of (V_struct name sz members))
     \<and> u2 = u1 \<and> TypeSection writer2 = TypeSection writer1"
proof -
  have "distinct (schema_ids (FxSerializerIO_new buffer_size mem_t mem_d))"
    by (simp add: schema_ids_def FxSerializerIO_new_def FxSerializerBaseSection.extend_def
        FxSerializerTypeSection.fields_def)
  with assms(1) have d: "distinct (schema_ids writer)" by (rule WriteTo_each_distinct)
  with assms(2) have "distinct (schema_ids writer1)" by (rule WriteTo_distinct)
  with assms(4) have d2: "distinct (schema_ids writer2)" by (rule WriteTo_each_distinct)
  have tw: "types_written u1 (TypeSection writer1) (type_of (V_struct name sz members))"
    using assms(2) by (rule WriteTo_written_step [rotated]) (rule FxSerializeValue_written)
  then have "types_written u1 (TypeSection writer1) (T_struct name sz (map type_of members))"
    by simp
  then have "u2 = u1 \<and> TypeSection writer2 = TypeSection writer1"
    by (rule WriteTo_each_same) (use assms(3,4) in simp_all)
  moreover have "laid_out (TypeSection (FxSerializerIO_new buffer_size mem_t mem_d))"
    by (simp add: laid_out_def FxSerializerIO_new_def FxSerializerBaseSection.extend_def
        FxSerializerTypeSection.fields_def Create_def)
  with assms(1) have l: "laid_out (TypeSection writer)" by (rule WriteTo_each_laid_out)
  with assms(2) have "laid_out (TypeSection writer1)" by (rule WriteTo_laid_out)
  with assms(4) have "laid_out (TypeSection writer2)" by (rule WriteTo_each_laid_out)
  ultimately show ?thesis using d d2 tw l by simp
qed

theorem schema_entries_written_once_witness:
  "WriteTo 7 (V_struct ''Outer'' 12 [V_int32 1, V_struct ''Inner'' 8 [V_int32 2]])
     (FxSerializeUtil_start, FxSerializerIO_new 64 [] []) = Inr (outer_registry, archive_of_one)
   \<and> WriteTo_each [(8, V_struct ''Outer'' 12 [V_int32 3, V_struct ''Inner'' 8 [V_int32 4]])]
       (outer_registry, archive_of_one) = Inr (outer_registry, archive_of_two)
   \<and> schema_ids archive_of_two = [2, 3, 1]
   \<and> distinct (schema_ids archive_of_two)
   \<and> laid_out (TypeSection archive_of_two)
   \<and> TypeSection archive_of_two = TypeSection archive_of_one"
proof -
  have "WriteTo_each [] (FxSerializeUtil_start, FxSerializerIO_new 64 [] [])
      = Inr (FxSerializeUtil_start :: cpp_type FxSerializeUtil, FxSerializerIO_new 64 [] [])"
    by simp
  then have "distinct (schema_ids (FxSerializerIO_new 64 [] []))
      \<and> distinct (schema_ids archive_of_two)
      \<and> laid_out (TypeSection (FxSerializerIO_new 64 [] []))
      \<and> laid_out (TypeSection archive_of_two)
      \<and> types_written outer_registry (TypeSection archive_of_one)
          (type_of (V_struct ''Outer'' 12 [V_int32 1, V_struct ''Inner'' 8 [V_int32 2]]))
      \<and> outer_registry = outer_registry
      \<and> TypeSection archive_of_two = TypeSection archive_of_one"
    using WriteTo_archive_of_one
  proof (rule schema_entries_written_once)
    show "\<forall>(h, v) \<in> set [(8, V_struct ''Outer'' 12 [V_int32 3, V_struct ''Inner'' 8 [V_int32 4]])].
        type_of v = type_of (V_struct ''Outer'' 12 [V_int32 1, V_struct ''Inner'' 8 [V_int32 2]])"
      by simp
    show "WriteTo_each [(8, V_struct ''Outer'' 12 [V_int32 3, V_struct ''Inner'' 8 [V_int32 4]])]
        (outer_registry, archive_of_one) = Inr (outer_registry, archive_of_two)"
      by (rule WriteTo_archive_of_two)
  qed
  then have "distinct (schema_ids archive_of_two) \<and> laid_out (TypeSection archive_of_two)
      \<and> TypeSection archive_of_two = TypeSection archive_of_one"
    by blast
  moreover have "schema_ids archive_of_two = [2, 3, 1]"
    by (simp add: schema_ids_def archive_of_two_def outer_types_def)
  ultimately show ?thesis
    using WriteTo_archive_of_one WriteTo_archive_of_two by blast
qed

end
